theory Spec2Isabelle
  imports Complex_Main
begin

unbundle bit_operations_syntax

section \<open>Numeric model\<close>

text \<open>
  The kernels of \<^verbatim>\<open>ray-tracing-wasm.c\<close> and \<^verbatim>\<open>psf-wasm.c\<close> compute on C \<^verbatim>\<open>double\<close>s.
  A finite double is modelled by the real number it denotes, and the rounding of a result
  to 53 bits is outside the model.  Where the source tests \<^verbatim>\<open>isfinite\<close> on a value that it
  has computed (\<^verbatim>\<open>aspheric_sag_rt10\<close>, the phase of a pupil cell) the computation is carried
  out on the type \<open>double\<close> below, whose operations overflow to the infinities, underflow to
  zero and produce NaN as IEEE 754 binary64 does; the sign of a zero is not modelled, a zero
  divisor counts as positive.  Elsewhere arithmetic is exact.  C \<^verbatim>\<open>int\<close>s are modelled by
  \<open>int\<close> or \<open>nat\<close>.  A C array is a list, a pointer that may be \<^verbatim>\<open>NULL\<close> is an \<open>option\<close>.
\<close>

datatype double = Finite real | PosInf | NegInf | NaN

fun isfinite :: "double \<Rightarrow> bool" where
  "isfinite (Finite v) = True"
| "isfinite PosInf = False"
| "isfinite NegInf = False"
| "isfinite NaN = False"

text \<open>The value of a finite double; a non-finite double has no value in the reals.\<close>

fun the_finite :: "double \<Rightarrow> real" where
  "the_finite (Finite v) = v"
| "the_finite PosInf = undefined"
| "the_finite NegInf = undefined"
| "the_finite NaN = undefined"

text \<open>
  An exact result of magnitude \<open>2^1024 - 2^970\<close> or more (the largest double plus half a
  unit in its last place) rounds to an infinity.  An exact product or quotient of
  magnitude \<open>2^-1075\<close> or less (half the least subnormal double) rounds to zero; a sum of two
  doubles is never that small unless it is zero.
\<close>

definition DBL_OVERFLOW :: real where "DBL_OVERFLOW = 2 ^ 1024 - 2 ^ 970"

definition DBL_UNDERFLOW :: real where "DBL_UNDERFLOW = 1 / 2 ^ 1075"

definition dbl_sum :: "real \<Rightarrow> double" where
  "dbl_sum x =
     (if DBL_OVERFLOW \<le> x then PosInf
      else if x \<le> - DBL_OVERFLOW then NegInf
      else Finite x)"

definition dbl_result :: "real \<Rightarrow> double" where
  "dbl_result x = (if \<bar>x\<bar> \<le> DBL_UNDERFLOW then Finite 0 else dbl_sum x)"

fun dneg :: "double \<Rightarrow> double" where
  "dneg (Finite a) = Finite (- a)"
| "dneg PosInf = NegInf"
| "dneg NegInf = PosInf"
| "dneg NaN = NaN"

fun dadd :: "double \<Rightarrow> double \<Rightarrow> double" where
  "dadd (Finite a) (Finite b) = dbl_sum (a + b)"
| "dadd (Finite a) PosInf = PosInf"
| "dadd (Finite a) NegInf = NegInf"
| "dadd PosInf (Finite b) = PosInf"
| "dadd PosInf PosInf = PosInf"
| "dadd PosInf NegInf = NaN"
| "dadd NegInf (Finite b) = NegInf"
| "dadd NegInf PosInf = NaN"
| "dadd NegInf NegInf = NegInf"
| "dadd NaN y = NaN"
| "dadd x NaN = NaN"

definition dsub :: "double \<Rightarrow> double \<Rightarrow> double" where
  "dsub x y = dadd x (dneg y)"

fun dmul :: "double \<Rightarrow> double \<Rightarrow> double" where
  "dmul (Finite a) (Finite b) = dbl_result (a * b)"
| "dmul (Finite a) PosInf = (if a = 0 then NaN else if 0 < a then PosInf else NegInf)"
| "dmul (Finite a) NegInf = (if a = 0 then NaN else if 0 < a then NegInf else PosInf)"
| "dmul PosInf (Finite b) = (if b = 0 then NaN else if 0 < b then PosInf else NegInf)"
| "dmul PosInf PosInf = PosInf"
| "dmul PosInf NegInf = NegInf"
| "dmul NegInf (Finite b) = (if b = 0 then NaN else if 0 < b then NegInf else PosInf)"
| "dmul NegInf PosInf = NegInf"
| "dmul NegInf NegInf = PosInf"
| "dmul NaN y = NaN"
| "dmul x NaN = NaN"

fun ddiv :: "double \<Rightarrow> double \<Rightarrow> double" where
  "ddiv (Finite a) (Finite b) =
     (if b = 0 then (if a = 0 then NaN else if 0 < a then PosInf else NegInf)
      else dbl_result (a / b))"
| "ddiv (Finite a) PosInf = Finite 0"
| "ddiv (Finite a) NegInf = Finite 0"
| "ddiv PosInf (Finite b) = (if 0 \<le> b then PosInf else NegInf)"
| "ddiv PosInf PosInf = NaN"
| "ddiv PosInf NegInf = NaN"
| "ddiv NegInf (Finite b) = (if 0 \<le> b then NegInf else PosInf)"
| "ddiv NegInf PosInf = NaN"
| "ddiv NegInf NegInf = NaN"
| "ddiv NaN y = NaN"
| "ddiv x NaN = NaN"

fun dsqrt :: "double \<Rightarrow> double" where
  "dsqrt (Finite a) = (if a < 0 then NaN else Finite (sqrt a))"
| "dsqrt PosInf = PosInf"
| "dsqrt NegInf = NaN"
| "dsqrt NaN = NaN"

text \<open>
  A range well inside that of the doubles (a name for the statements about the arithmetic):
  an operation whose exact result is zero or has a magnitude between \<open>1e-300\<close> and \<open>1e300\<close>
  neither overflows nor underflows.
\<close>

definition SAFE_MAX :: real where "SAFE_MAX = 10 ^ 300"

definition dbl_in_range :: "real \<Rightarrow> bool" where
  "dbl_in_range x = (x = 0 \<or> (1 / SAFE_MAX \<le> \<bar>x\<bar> \<and> \<bar>x\<bar> \<le> SAFE_MAX))"

section \<open>Aspheric evaluator (ray-tracing-wasm.c)\<close>

text \<open>
  The loop of \<^verbatim>\<open>__rt10_asphere_poly\<close> over \<^verbatim>\<open>coefs[0..9]\<close>: a zero coefficient is skipped,
  the power is multiplied by \<open>r2\<close> after every coefficient.  The function is called by
  \<^verbatim>\<open>aspheric_sag_rt10\<close> only, on doubles.
\<close>

fun asphere_poly_loop :: "real list \<Rightarrow> double \<Rightarrow> double \<Rightarrow> double \<Rightarrow> double" where
  "asphere_poly_loop [] r2 r_power asphere = asphere"
| "asphere_poly_loop (c # cs) r2 r_power asphere =
     asphere_poly_loop cs r2 (dmul r_power r2)
       (if c \<noteq> 0 then dadd asphere (dmul (Finite c) r_power) else asphere)"

text \<open>\<open>coefs\<close> is the array \<^verbatim>\<open>{coef1, ..., coef10}\<close> that the C function builds from its ten
  coefficient parameters.\<close>

definition rt10_asphere_poly :: "double \<Rightarrow> double \<Rightarrow> real list \<Rightarrow> int \<Rightarrow> double" where
  "rt10_asphere_poly r r2 coefs modeOdd =
     (if modeOdd \<noteq> 0 then asphere_poly_loop coefs r2 (dmul r2 r) (Finite 0)
      else asphere_poly_loop coefs r2 r2 (Finite 0))"

text \<open>The loops of \<^verbatim>\<open>__rt10_asphere_dzdr\<close>; \<open>i\<close> is the loop index.\<close>

fun asphere_dzdr_loop :: "real list \<Rightarrow> bool \<Rightarrow> int \<Rightarrow> real \<Rightarrow> real \<Rightarrow> real \<Rightarrow> real" where
  "asphere_dzdr_loop [] odd_mode i r2 r_pow dz = dz"
| "asphere_dzdr_loop (c # cs) odd_mode i r2 r_pow dz =
     asphere_dzdr_loop cs odd_mode (i + 1) r2 (r_pow * r2)
       (if c \<noteq> 0
        then dz + c * (if odd_mode then real_of_int (2 * (i + 1) + 1) else real_of_int (2 * (i + 1))) * r_pow
        else dz)"

definition rt10_asphere_dzdr :: "real \<Rightarrow> real \<Rightarrow> real list \<Rightarrow> int \<Rightarrow> real" where
  "rt10_asphere_dzdr r r2 coefs modeOdd =
     (if r = 0 then 0
      else if modeOdd \<noteq> 0 then asphere_dzdr_loop coefs True 0 r2 r2 0
      else asphere_dzdr_loop coefs False 0 r2 r 0)"

definition aspheric_sag :: "real \<Rightarrow> real \<Rightarrow> real \<Rightarrow> real \<Rightarrow> real \<Rightarrow> real \<Rightarrow> real \<Rightarrow> real" where
  "aspheric_sag r c k a4 a6 a8 a10 =
     (if r = 0 then 0
      else
        let r2 = r * r;
            cr2 = c * r2;
            discriminant = 1 - (1 + k) * c * c * r2
        in if discriminant \<le> 0 then 0
           else
             let basic_sag = cr2 / (1 + sqrt discriminant);
                 r4 = r2 * r2;
                 r6 = r4 * r2;
                 r8 = r4 * r4;
                 r10 = r8 * r2;
                 aspherical_terms = a4 * r4 + a6 * r6 + a8 * r8 + a10 * r10
             in basic_sag + aspherical_terms)"

definition aspheric_sag10 ::
  "real \<Rightarrow> real \<Rightarrow> real \<Rightarrow> real \<Rightarrow> real \<Rightarrow> real \<Rightarrow> real \<Rightarrow>
   real \<Rightarrow> real \<Rightarrow> real \<Rightarrow> real \<Rightarrow> real \<Rightarrow> real \<Rightarrow> real" where
  "aspheric_sag10 r c k a4 a6 a8 a10 a12 a14 a16 a18 a20 a22 =
     (if r = 0 then 0
      else
        let r2 = r * r;
            cr2 = c * r2;
            discriminant = 1 - (1 + k) * c * c * r2
        in if discriminant \<le> 0 then 0
           else
             let basic_sag = cr2 / (1 + sqrt discriminant);
                 r4 = r2 * r2;
                 r6 = r4 * r2;
                 r8 = r4 * r4;
                 r10 = r8 * r2;
                 r12 = r6 * r6;
                 r14 = r12 * r2;
                 r16 = r8 * r8;
                 r18 = r16 * r2;
                 r20 = r10 * r10;
                 r22 = r20 * r2;
                 aspherical_terms =
                   a4 * r4 + a6 * r6 + a8 * r8 + a10 * r10 +
                   a12 * r12 + a14 * r14 + a16 * r16 + a18 * r18 + a20 * r20 + a22 * r22
             in basic_sag + aspherical_terms)"

text \<open>
  The batch entry points write \<^verbatim>\<open>result_array[i]\<close> for \<open>i = 0, ..., count - 1\<close>.  The two
  arrays are distinct lists: the model does not cover a result array that overlaps the
  input array.
\<close>

definition batch_aspheric_sag ::
  "real list \<Rightarrow> int \<Rightarrow> real \<Rightarrow> real \<Rightarrow> real \<Rightarrow> real \<Rightarrow> real \<Rightarrow> real \<Rightarrow> real list \<Rightarrow> real list" where
  "batch_aspheric_sag r_array count c k a4 a6 a8 a10 result_array =
     fold (\<lambda>i res. res[i := aspheric_sag (r_array ! i) c k a4 a6 a8 a10])
       [0..<nat count] result_array"

definition batch_aspheric_sag10 ::
  "real list \<Rightarrow> int \<Rightarrow> real \<Rightarrow> real \<Rightarrow> real \<Rightarrow> real \<Rightarrow> real \<Rightarrow> real \<Rightarrow>
   real \<Rightarrow> real \<Rightarrow> real \<Rightarrow> real \<Rightarrow> real \<Rightarrow> real \<Rightarrow> real list \<Rightarrow> real list" where
  "batch_aspheric_sag10 r_array count c k a4 a6 a8 a10 a12 a14 a16 a18 a20 a22 result_array =
     fold (\<lambda>i res. res[i := aspheric_sag10 (r_array ! i) c k a4 a6 a8 a10 a12 a14 a16 a18 a20 a22])
       [0..<nat count] result_array"

text \<open>
  \<^verbatim>\<open>aspheric_sag_rt10\<close>, on doubles: the square of \<open>r\<close> or of \<open>radius\<close> can overflow or
  underflow, the quotient of two such values can be NaN, and the two tests \<^verbatim>\<open>isfinite\<close>
  turn every such case into the result 0.  The arguments are finite doubles and so is the
  result.
\<close>

definition aspheric_sag_rt10 :: "real \<Rightarrow> real \<Rightarrow> real \<Rightarrow> real list \<Rightarrow> int \<Rightarrow> real" where
  "aspheric_sag_rt10 r radius conic coefs modeOdd =
     (if radius = 0 then 0
      else
        let r2 = dmul (Finite r) (Finite r);
            sqrtTerm = dsub (Finite 1)
                         (ddiv (dmul (dadd (Finite 1) (Finite conic)) r2)
                               (dmul (Finite radius) (Finite radius)))
        in if \<not> isfinite sqrtTerm \<or> the_finite sqrtTerm < 0 then 0
           else
             let base = ddiv r2 (dmul (Finite radius) (dadd (Finite 1) (dsqrt sqrtTerm)));
                 asphere = rt10_asphere_poly (Finite r) r2 coefs modeOdd;
                 out = dadd base asphere
             in if isfinite out then the_finite out else 0)"

section \<open>Ray-surface solver (ray-tracing-wasm.c)\<close>

text \<open>
  \<^verbatim>\<open>intersect_aspheric_rt10\<close>.  Origin, direction, semidiameter, radius, conic constant,
  coefficients and tolerance are finite doubles, so the tests \<^verbatim>\<open>isfinite\<close> on them hold;
  every quotient of the function has a divisor that the code has tested to be non-zero,
  so \<^verbatim>\<open>isfinite(dFdt)\<close> and \<^verbatim>\<open>isfinite(step)\<close> hold as well in the exact arithmetic of the
  iteration.  The surface height is \<open>aspheric_sag_rt10\<close> above.  The four thresholds are
  local constants of the function.
\<close>

definition EPS_T :: real where "EPS_T = 1 / 10 ^ 10"
definition EPS_DIRZ :: real where "EPS_DIRZ = 1 / 10 ^ 14"
definition EPS_R :: real where "EPS_R = 1 / 10 ^ 14"
definition EPS_DFDT :: real where "EPS_DFDT = 1 / 10 ^ 14"

text \<open>Step 1 of the seeding: both roots of the sphere approximation, smaller first.
  The list is the filled part of \<^verbatim>\<open>guesses[10]\<close>, its length is \<^verbatim>\<open>gCount\<close>.\<close>

definition sphere_guesses :: "real \<Rightarrow> real \<Rightarrow> real \<Rightarrow> real \<Rightarrow> real \<Rightarrow> real \<Rightarrow> real \<Rightarrow> real list" where
  "sphere_guesses ox oy oz dx dy dz radius =
     (if radius \<noteq> 0 then
        let cz = radius;
            A = dx * dx + dy * dy + dz * dz
        in if A \<noteq> 0 then
             let B = 2 * (ox * dx + oy * dy + (oz - cz) * dz);
                 C = ox * ox + oy * oy + (oz - cz) * (oz - cz) - radius * radius;
                 D = B * B - 4 * A * C
             in if D \<ge> 0 then
                  let sD = sqrt D;
                      t1 = (- B - sD) / (2 * A);
                      t2 = (- B + sD) / (2 * A);
                      g = (if t1 > EPS_T then [t1] else []);
                      g = (if t2 > EPS_T then g @ [t2] else g)
                  in if length g \<ge> 2
                     then (if g ! 0 > g ! 1 then g[0 := g ! 1, 1 := g ! 0] else g)
                     else g
                else []
           else []
      else [])"

text \<open>Steps 2 to 4: the plane crossing, the two semidiameter guesses, the fallback ladder.\<close>

definition initial_guesses ::
  "real \<Rightarrow> real \<Rightarrow> real \<Rightarrow> real \<Rightarrow> real \<Rightarrow> real \<Rightarrow> real \<Rightarrow> real \<Rightarrow> real list" where
  "initial_guesses ox oy oz dx dy dz semidia radius =
     (let g = sphere_guesses ox oy oz dx dy dz radius;
          g = (if \<bar>dz\<bar> > EPS_DIRZ
               then (let tp = - oz / dz in if tp > EPS_T \<and> length g < 10 then g @ [tp] else g)
               else g);
          g = (if semidia > 0 \<and> length g < 10 then
                 let curR = sqrt (ox * ox + oy * oy);
                     dirR = sqrt (dx * dx + dy * dy)
                 in if dirR > EPS_R then
                      let targetR1 = semidia * (8 / 10);
                          targetR2 = semidia * 1;
                          g = (if targetR1 > curR \<and> length g < 10
                               then (let ts = (targetR1 - curR) / dirR in if ts > EPS_T then g @ [ts] else g)
                               else g);
                          g = (if targetR2 > curR \<and> length g < 10
                               then (let ts = (targetR2 - curR) / dirR in if ts > EPS_T then g @ [ts] else g)
                               else g)
                      in g
                    else g
               else g);
          g = (if length g = 0 then [1 / 10 ^ 6, 1 / 10 ^ 4, 1 / 10 ^ 2] else g)
      in g)"

text \<open>
  The Newton loop \<^verbatim>\<open>for (int i = 0; i < maxIter; i++)\<close> from one seed; the first argument
  after the tolerance is the number of rounds left.  \<open>Some v\<close>: the function returns \<open>v\<close>.
  \<open>None\<close>: the loop ends by \<^verbatim>\<open>break\<close> or by its bound, and the next seed is tried.
\<close>

fun newton_iterate ::
  "real \<Rightarrow> real \<Rightarrow> real \<Rightarrow> real \<Rightarrow> real \<Rightarrow> real \<Rightarrow> real \<Rightarrow> real \<Rightarrow> real \<Rightarrow> real list \<Rightarrow> int \<Rightarrow>
   real \<Rightarrow> nat \<Rightarrow> real \<Rightarrow> real option" where
  "newton_iterate ox oy oz dx dy dz semidia radius conic coefs modeOdd tol 0 t = None"
| "newton_iterate ox oy oz dx dy dz semidia radius conic coefs modeOdd tol (Suc m) t =
     (let x = ox + dx * t;
          y = oy + dy * t;
          z = oz + dz * t;
          r2 = x * x + y * y;
          r = sqrt r2;
          sag = aspheric_sag_rt10 r radius conic coefs modeOdd;
          F = z - sag
      in if \<bar>F\<bar> < tol then
           (if semidia > 0 \<and> r > semidia then None
            else Some (if t > 0 then t else - 1))
         else
           let dzdr_base =
                 (if radius \<noteq> 0 \<and> r > 0 then
                    let R = radius;
                        term = (1 + conic) * r2 / (R * R)
                    in if term < 1 then
                         let sqrtTerm = sqrt (1 - term)
                         in if sqrtTerm > 0 then
                              let denom = R * (1 + sqrtTerm);
                                  sqrtDer = (1 + conic) * r / (R * R * sqrtTerm)
                              in (2 * r * denom - r2 * R * sqrtDer) / (denom * denom)
                            else 0
                       else 1 / R
                  else 0);
               dzdr_poly = rt10_asphere_dzdr r r2 coefs modeOdd;
               dzdr = dzdr_base + dzdr_poly;
               drdt = (if r > EPS_R then (x * dx + y * dy) / r else 0);
               dFdt = dz - dzdr * drdt
           in if \<bar>dFdt\<bar> < EPS_DFDT then None
              else
                let step = F / dFdt;
                    t' = t - step
                in if \<not> t' > 0 then None
                   else newton_iterate ox oy oz dx dy dz semidia radius conic coefs modeOdd tol m t')"

text \<open>The loop over the seeds: the first seed whose Newton loop returns decides; \<open>-1\<close> at
  the end.\<close>

fun try_guesses ::
  "real \<Rightarrow> real \<Rightarrow> real \<Rightarrow> real \<Rightarrow> real \<Rightarrow> real \<Rightarrow> real \<Rightarrow> real \<Rightarrow> real \<Rightarrow> real list \<Rightarrow> int \<Rightarrow>
   real \<Rightarrow> nat \<Rightarrow> real list \<Rightarrow> real" where
  "try_guesses ox oy oz dx dy dz semidia radius conic coefs modeOdd tol maxIter [] = - 1"
| "try_guesses ox oy oz dx dy dz semidia radius conic coefs modeOdd tol maxIter (t # guesses) =
     (if \<not> t > 0
      then try_guesses ox oy oz dx dy dz semidia radius conic coefs modeOdd tol maxIter guesses
      else
        case newton_iterate ox oy oz dx dy dz semidia radius conic coefs modeOdd tol maxIter t of
          Some v \<Rightarrow> v
        | None \<Rightarrow> try_guesses ox oy oz dx dy dz semidia radius conic coefs modeOdd tol maxIter guesses)"

definition intersect_aspheric_rt10 ::
  "real \<Rightarrow> real \<Rightarrow> real \<Rightarrow> real \<Rightarrow> real \<Rightarrow> real \<Rightarrow> real \<Rightarrow> real \<Rightarrow> real \<Rightarrow> real list \<Rightarrow> int \<Rightarrow>
   int \<Rightarrow> real \<Rightarrow> real" where
  "intersect_aspheric_rt10 ox oy oz dx dy dz semidia radius conic coefs modeOdd maxIter tol =
     (let maxIter = (if \<not> maxIter > 0 then 20 else maxIter);
          tol = (if \<not> tol > 0 then 1 / 10 ^ 7 else tol)
      in try_guesses ox oy oz dx dy dz semidia radius conic coefs modeOdd tol (nat maxIter)
           (initial_guesses ox oy oz dx dy dz semidia radius))"

section \<open>PSF kernels (psf-wasm.c): process-wide state and library functions\<close>

text \<open>
  The struct \<^verbatim>\<open>Complex {double real; double imag;}\<close> is the type \<open>complex\<close> with the
  components \<open>Re\<close> and \<open>Im\<close>.  The file's static variables form the record below; every
  function that reads or writes one of them takes the state and returns the new one.
  Sizes and indices are non-negative \<^verbatim>\<open>int\<close>s and are modelled by \<open>nat\<close>, except
  \<^verbatim>\<open>trig_table_size\<close>, the result of a product that can wrap around.  The C
  identifiers \<^verbatim>\<open>inverse\<close>, \<^verbatim>\<open>size\<close> and \<^verbatim>\<open>bit\<close> are constants of HOL and appear as
  \<open>inverse_flag\<close>, \<open>size_n\<close> and \<open>bit_mask\<close>.
\<close>

record psf_state =
  twiddle_table :: "complex list option"
  twiddle_table_size :: nat
  sin_table :: "real list option"
  cos_table :: "real list option"
  trig_table_size :: int
  fft_temp_buffer :: "complex list option"
  fft_temp_capacity :: nat

text \<open>The state of a fresh process: every pointer \<^verbatim>\<open>NULL\<close>, every size zero.\<close>

definition initial_state :: psf_state where
  "initial_state =
     \<lparr>twiddle_table = None, twiddle_table_size = 0,
      sin_table = None, cos_table = None, trig_table_size = 0,
      fft_temp_buffer = None, fft_temp_capacity = 0\<rparr>"

text \<open>
  The C library on doubles.  \<^verbatim>\<open>sin\<close> and \<^verbatim>\<open>cos\<close> return NaN for a NaN or an infinite
  argument (C99, F.9.1); the cast \<^verbatim>\<open>(int)\<close> and the quotient inside \<^verbatim>\<open>fmod\<close> truncate
  towards zero; \<^verbatim>\<open>fmod\<close> is exact.  \<^verbatim>\<open>M_PI\<close> is modelled by \<open>pi\<close>.
\<close>

fun libm_sin :: "double \<Rightarrow> double" where
  "libm_sin (Finite v) = Finite (sin v)"
| "libm_sin PosInf = NaN"
| "libm_sin NegInf = NaN"
| "libm_sin NaN = NaN"

fun libm_cos :: "double \<Rightarrow> double" where
  "libm_cos (Finite v) = Finite (cos v)"
| "libm_cos PosInf = NaN"
| "libm_cos NegInf = NaN"
| "libm_cos NaN = NaN"

definition c_trunc :: "real \<Rightarrow> int" where
  "c_trunc x = (if x < 0 then \<lceil>x\<rceil> else \<lfloor>x\<rfloor>)"

definition c_fmod :: "real \<Rightarrow> real \<Rightarrow> real" where
  "c_fmod x y = x - real_of_int (c_trunc (x / y)) * y"

text \<open>
  The product of two \<^verbatim>\<open>int\<close>s as the WebAssembly target computes it: modulo \<open>2^32\<close>, read
  as a signed number (in C itself an overflowing product is undefined).
\<close>

definition int32 :: "int \<Rightarrow> int" where
  "int32 x = (x + 2 ^ 31) mod 2 ^ 32 - 2 ^ 31"

section \<open>Scratch buffer, trigonometric tables, twiddle table\<close>

text \<open>
  \<^verbatim>\<open>ensure_fft_temp_buffer\<close>.  \<open>mem\<close> is what \<^verbatim>\<open>malloc\<close> returns when it is called:
  \<open>None\<close> when the allocation fails, otherwise a block of \<open>need_elements\<close> elements with
  arbitrary content.
\<close>

definition ensure_fft_temp_buffer :: "psf_state \<Rightarrow> complex list option \<Rightarrow> nat \<Rightarrow> psf_state" where
  "ensure_fft_temp_buffer st mem need_elements =
     (if fft_temp_capacity st < need_elements then
        let st1 = (if fft_temp_buffer st \<noteq> None
                   then st\<lparr>fft_temp_buffer := None, fft_temp_capacity := 0\<rparr>
                   else st);
            st2 = st1\<lparr>fft_temp_buffer := mem\<rparr>
        in if fft_temp_buffer st2 \<noteq> None then st2\<lparr>fft_temp_capacity := need_elements\<rparr> else st2
      else st)"

text \<open>
  \<^verbatim>\<open>init_fast_trig_tables\<close>.  \<^verbatim>\<open>trig_table_size = max_size * 4\<close> is a product of \<^verbatim>\<open>int\<close>s
  and wraps around from \<open>max_size = 2^29\<close> on.  The two \<^verbatim>\<open>malloc\<close>s are not checked by the
  code; the model covers the calls where they succeed.  The loop fills the entries
  \<open>0, ..., trig_table_size - 1\<close>, none when the size is not positive.
\<close>

definition init_fast_trig_tables :: "psf_state \<Rightarrow> nat \<Rightarrow> psf_state" where
  "init_fast_trig_tables st max_size =
     (let size = int32 (int max_size * 4)
      in st\<lparr>trig_table_size := size,
            sin_table := Some (map (\<lambda>i. sin (2 * pi * real i / real_of_int size)) [0..<nat size]),
            cos_table := Some (map (\<lambda>i. cos (2 * pi * real i / real_of_int size)) [0..<nat size])\<rparr>)"

text \<open>
  \<^verbatim>\<open>fast_sin\<close> and \<^verbatim>\<open>fast_cos\<close>: the test for a missing table comes first, then the test
  for a non-finite argument, the reduction modulo \<open>2 * pi\<close> and the table lookup.  The
  index computation is the same four lines in both functions and is \<open>trig_index\<close> here.

  The index is the integer part of the double that the machine computes for
  \<^verbatim>\<open>(x / (2.0 * M_PI)) * trig_table_size\<close>.  That double differs from the exact value of the
  expression by the rounding of \<^verbatim>\<open>M_PI\<close>, of the sum and of the two operations, and where
  the exact value is an integer or close to one the integer part of the double can be the
  neighbouring index.  Which double it is lies outside the model of exact arithmetic, so
  the functions take it as their first argument: \<open>rq v e\<close> is the double computed for the
  argument \<open>v\<close> where the exact value of the expression is \<open>e\<close>.  \<open>exact_quotient\<close> is the
  evaluation without rounding.  The table entry read is the one at the index, also when
  the index is outside the table (a size that is not positive).
\<close>

type_synonym index_quotient = "real \<Rightarrow> real \<Rightarrow> real"

definition exact_quotient :: index_quotient where
  "exact_quotient v e = e"

definition trig_index :: "index_quotient \<Rightarrow> psf_state \<Rightarrow> real \<Rightarrow> nat" where
  "trig_index rq st v =
     (let x = c_fmod v (2 * pi);
          x = (if x < 0 then x + 2 * pi else x);
          index = c_trunc (rq v ((x / (2 * pi)) * real_of_int (trig_table_size st)));
          index = (if index \<ge> trig_table_size st then trig_table_size st - 1 else index)
      in nat index)"

definition fast_sin :: "index_quotient \<Rightarrow> psf_state \<Rightarrow> double \<Rightarrow> double" where
  "fast_sin rq st x =
     (case sin_table st of
        None \<Rightarrow> libm_sin x
      | Some tab \<Rightarrow>
          if \<not> isfinite x then Finite 0
          else Finite (tab ! trig_index rq st (the_finite x)))"

definition fast_cos :: "index_quotient \<Rightarrow> psf_state \<Rightarrow> double \<Rightarrow> double" where
  "fast_cos rq st x =
     (case cos_table st of
        None \<Rightarrow> libm_cos x
      | Some tab \<Rightarrow>
          if \<not> isfinite x then Finite 1
          else Finite (tab ! trig_index rq st (the_finite x)))"

text \<open>
  \<^verbatim>\<open>init_twiddle_table\<close>: entry \<open>i\<close> is \<^verbatim>\<open>(fast_cos(angle), fast_sin(angle))\<close> for
  \<^verbatim>\<open>angle = -2.0 * M_PI * i / max_size\<close>, a finite double.
\<close>

definition init_twiddle_table :: "index_quotient \<Rightarrow> psf_state \<Rightarrow> nat \<Rightarrow> psf_state" where
  "init_twiddle_table rq st max_size =
     st\<lparr>twiddle_table_size := max_size,
        twiddle_table :=
          Some (map (\<lambda>i. let angle = Finite (- 2 * pi * real i / real max_size)
                         in Complex (the_finite (fast_cos rq st angle)) (the_finite (fast_sin rq st angle)))
                  [0..<max_size])\<rparr>"

section \<open>FFT engine\<close>

text \<open>The inner \<^verbatim>\<open>while (j & bit)\<close> of the bit-reversal loop; it returns \<open>j\<close> and \<^verbatim>\<open>bit\<close>.\<close>

function bit_reverse_carry :: "nat \<Rightarrow> nat \<Rightarrow> nat \<times> nat" where
  "bit_reverse_carry j bit_mask =
     (if j AND bit_mask \<noteq> 0 then bit_reverse_carry (j XOR bit_mask) (drop_bit 1 bit_mask)
      else (j, bit_mask))"
  by pat_completeness auto
termination
proof (relation "measure snd")
  show "wf (measure snd)" by simp
next
  fix j bit_mask :: nat
  assume "j AND bit_mask \<noteq> 0"
  then have "bit_mask \<noteq> 0" by (cases "bit_mask = 0") simp_all
  then show "((j XOR bit_mask, drop_bit 1 bit_mask), (j, bit_mask)) \<in> measure snd"
    by (simp add: drop_bit_eq_div)
qed

declare bit_reverse_carry.simps [simp del]

text \<open>One round of \<^verbatim>\<open>for (int i = 1; i < n; i++)\<close>: the state is \<open>j\<close> and the array.\<close>

definition bit_reverse_step :: "nat \<Rightarrow> nat \<Rightarrow> nat \<times> complex list \<Rightarrow> nat \<times> complex list" where
  "bit_reverse_step n i s =
     (let j = fst s; data = snd s;
          jb = bit_reverse_carry j (drop_bit 1 n);
          j = fst jb XOR snd jb
      in (j, if i < j then data[i := data ! j, j := data ! i] else data))"

definition bit_reverse_permute :: "nat \<Rightarrow> complex list \<Rightarrow> complex list" where
  "bit_reverse_permute n data = snd (fold (bit_reverse_step n) [1..<n] (0, data))"

text \<open>The body of the innermost loop: one butterfly, with the twiddle factor read from the
  table at \<^verbatim>\<open>j * step\<close> (forward) or \<^verbatim>\<open>n - j * step\<close>, reduced by \<open>n\<close> (inverse).\<close>

definition butterfly ::
  "complex list \<Rightarrow> nat \<Rightarrow> int \<Rightarrow> nat \<Rightarrow> nat \<Rightarrow> nat \<Rightarrow> nat \<Rightarrow> complex list \<Rightarrow> complex list" where
  "butterfly tw n inverse_flag len step i j data =
     (let twiddle_idx = j * step;
          twiddle_idx = (if inverse_flag \<noteq> 0 then n - twiddle_idx else twiddle_idx);
          twiddle_idx = (if twiddle_idx \<ge> n then twiddle_idx - n else twiddle_idx);
          w = tw ! twiddle_idx;
          u = data ! (i + j);
          d = data ! (i + j + len div 2);
          v = Complex (Re d * Re w - Im d * Im w) (Re d * Im w + Im d * Re w)
      in data[i + j := Complex (Re u + Re v) (Im u + Im v),
              i + j + len div 2 := Complex (Re u - Re v) (Im u - Im v)])"

text \<open>\<^verbatim>\<open>for (int i = 0; i < n; i += len)\<close> around \<^verbatim>\<open>for (int j = 0; j < len / 2; j++)\<close>.
  The loop is entered with \<open>len \<ge> 2\<close> only; the test \<open>0 < len\<close> makes the model total.\<close>

function fft_groups ::
  "complex list \<Rightarrow> nat \<Rightarrow> int \<Rightarrow> nat \<Rightarrow> nat \<Rightarrow> complex list \<Rightarrow> complex list" where
  "fft_groups tw n inverse_flag len i data =
     (if i < n \<and> 0 < len
      then fft_groups tw n inverse_flag len (i + len)
             (fold (butterfly tw n inverse_flag len (n div len) i) [0..<len div 2] data)
      else data)"
  by pat_completeness auto
termination
  by (relation "measure (\<lambda>(tw, n, inverse_flag, len, i, data). n - i)") auto

declare fft_groups.simps [simp del]

text \<open>\<^verbatim>\<open>for (int len = 2; len <= n; len <<= 1)\<close>.\<close>

function fft_stages ::
  "complex list \<Rightarrow> nat \<Rightarrow> int \<Rightarrow> nat \<Rightarrow> complex list \<Rightarrow> complex list" where
  "fft_stages tw n inverse_flag len data =
     (if len \<le> n \<and> 0 < len
      then fft_stages tw n inverse_flag (push_bit 1 len) (fft_groups tw n inverse_flag len 0 data)
      else data)"
  by pat_completeness auto
termination
  by (relation "measure (\<lambda>(tw, n, inverse_flag, len, data). Suc n - len)") (auto simp: push_bit_eq_mult)

declare fft_stages.simps [simp del]

text \<open>
  \<^verbatim>\<open>fft_1d(data, n, inverse)\<close>: \<open>data\<close> is the array from the pointer on, of which the
  function transforms the first \<open>n\<close> elements in place.  The table is rebuilt only when it
  is missing or shorter than \<open>n\<close>.
\<close>

definition fft_1d ::
  "index_quotient \<Rightarrow> psf_state \<Rightarrow> complex list \<Rightarrow> nat \<Rightarrow> int \<Rightarrow> psf_state \<times> complex list" where
  "fft_1d rq st data n inverse_flag =
     (if n \<le> 1 then (st, data)
      else
        let st1 = (if twiddle_table st = None \<or> twiddle_table_size st < n
                   then init_twiddle_table rq st n else st);
            tw = the (twiddle_table st1);
            data1 = bit_reverse_permute n data;
            data2 = fft_stages tw n inverse_flag 2 data1;
            data3 = (if inverse_flag \<noteq> 0
                     then (let inv_n = 1 / real n
                           in map (\<lambda>c. Complex (Re c * inv_n) (Im c * inv_n)) (take n data2) @ drop n data2)
                     else data2)
        in (st1, data3))"

text \<open>\<^verbatim>\<open>transpose_complex\<close>: the two inner loops copy one block, the two outer loops step
  through the blocks.\<close>

definition transpose_block ::
  "complex list \<Rightarrow> nat \<Rightarrow> nat \<Rightarrow> nat \<Rightarrow> nat \<Rightarrow> nat \<Rightarrow> nat \<Rightarrow> complex list \<Rightarrow> complex list" where
  "transpose_block src width height i max_i j max_j dst =
     fold (\<lambda>ii d. fold (\<lambda>jj d. d[jj * height + ii := src ! (ii * width + jj)]) [j..<max_j] d)
       [i..<max_i] dst"

function transpose_cols ::
  "complex list \<Rightarrow> nat \<Rightarrow> nat \<Rightarrow> nat \<Rightarrow> nat \<Rightarrow> nat \<Rightarrow> complex list \<Rightarrow> complex list" where
  "transpose_cols src width height BLOCK_SIZE i j dst =
     (if j < width \<and> 0 < BLOCK_SIZE
      then
        let max_i = (if i + BLOCK_SIZE < height then i + BLOCK_SIZE else height);
            max_j = (if j + BLOCK_SIZE < width then j + BLOCK_SIZE else width)
        in transpose_cols src width height BLOCK_SIZE i (j + BLOCK_SIZE)
             (transpose_block src width height i max_i j max_j dst)
      else dst)"
  by pat_completeness auto
termination
  by (relation "measure (\<lambda>(src, width, height, BLOCK_SIZE, i, j, dst). width - j)") auto

declare transpose_cols.simps [simp del]

function transpose_rows ::
  "complex list \<Rightarrow> nat \<Rightarrow> nat \<Rightarrow> nat \<Rightarrow> nat \<Rightarrow> complex list \<Rightarrow> complex list" where
  "transpose_rows src width height BLOCK_SIZE i dst =
     (if i < height \<and> 0 < BLOCK_SIZE
      then transpose_rows src width height BLOCK_SIZE (i + BLOCK_SIZE)
             (transpose_cols src width height BLOCK_SIZE i 0 dst)
      else dst)"
  by pat_completeness auto
termination
  by (relation "measure (\<lambda>(src, width, height, BLOCK_SIZE, i, dst). height - i)") auto

declare transpose_rows.simps [simp del]

definition transpose_complex :: "complex list \<Rightarrow> complex list \<Rightarrow> nat \<Rightarrow> nat \<Rightarrow> complex list" where
  "transpose_complex src dst width height =
     (let BLOCK_SIZE = (if width \<ge> 256 \<and> height \<ge> 256 then 64 else 32)
      in transpose_rows src width height BLOCK_SIZE 0 dst)"

text \<open>
  \<^verbatim>\<open>fft_1d(data + i * W, W, inverse)\<close> for one row: the function works on the array from
  offset \<open>i * W\<close> on.
\<close>

definition fft_row ::
  "index_quotient \<Rightarrow> nat \<Rightarrow> int \<Rightarrow> nat \<Rightarrow> psf_state \<times> complex list \<Rightarrow> psf_state \<times> complex list" where
  "fft_row rq W inverse_flag i s =
     (let r = fft_1d rq (fst s) (drop (i * W) (snd s)) W inverse_flag
      in (fst r, take (i * W) (snd s) @ snd r))"

text \<open>
  \<^verbatim>\<open>fft_2d\<close>.  \<open>mem\<close> is the result of the \<^verbatim>\<open>malloc\<close> inside \<^verbatim>\<open>ensure_fft_temp_buffer\<close>,
  should it be called.  The scratch buffer is part of the state and keeps what the
  transform leaves in it.
\<close>

definition fft_2d ::
  "index_quotient \<Rightarrow> psf_state \<Rightarrow> complex list option \<Rightarrow> complex list \<Rightarrow> nat \<Rightarrow> nat \<Rightarrow> int \<Rightarrow>
   psf_state \<times> complex list" where
  "fft_2d rq st mem data width height inverse_flag =
     (let W = width; H = height;
          st1 = ensure_fft_temp_buffer st mem (W * H)
      in case fft_temp_buffer st1 of
           None \<Rightarrow> (st1, data)
         | Some temp \<Rightarrow>
             let s2 = fold (fft_row rq W inverse_flag) [0..<H] (st1, data);
                 temp1 = transpose_complex (snd s2) temp W H;
                 s3 = fold (fft_row rq H inverse_flag) [0..<W] (fst s2, temp1);
                 data2 = transpose_complex (snd s3) (snd s2) H W
             in ((fst s3)\<lparr>fft_temp_buffer := Some (snd s3)\<rparr>, data2))"

section \<open>Array bounds of the transform\<close>

text \<open>
  \<^verbatim>\<open>fft_1d\<close> indexes its array without a check, whatever \<open>n\<close> is: \<^verbatim>\<open>data[i]\<close> and \<^verbatim>\<open>data[j]\<close>
  in the bit reversal, \<^verbatim>\<open>data[i + j]\<close> and \<^verbatim>\<open>data[i + j + len / 2]\<close> in the butterflies,
  \<^verbatim>\<open>data[0 .. n - 1]\<close> in the scaling of the inverse transform.  The predicates below follow
  the same loops and say whether every element read or written lies within the array;
  \<open>avail\<close> is the number of elements from the pointer to the end of the array.  The index
  \<open>j\<close> of a round of the bit reversal does not depend on the content of the array.  An
  access outside the array is undefined behaviour of the C program.  The functions
  \<open>fft_1d\<close> and \<open>fft_2d\<close> above say what a call computes when every access is within the
  array.
\<close>

definition bit_reverse_in_bounds :: "nat \<Rightarrow> nat \<Rightarrow> bool" where
  "bit_reverse_in_bounds avail n =
     fst (fold (\<lambda>i s. let j = fst (bit_reverse_step n i (snd s, []))
                      in (fst s \<and> (if i < j then j < avail else True), j))
            [1..<n] (True, 0))"

function groups_in_bounds :: "nat \<Rightarrow> nat \<Rightarrow> nat \<Rightarrow> nat \<Rightarrow> bool" where
  "groups_in_bounds avail n len i =
     (if i < n \<and> 0 < len
      then list_all (\<lambda>j. i + j + len div 2 < avail) [0..<len div 2]
           \<and> groups_in_bounds avail n len (i + len)
      else True)"
  by pat_completeness auto
termination
  by (relation "measure (\<lambda>(avail, n, len, i). n - i)") auto

declare groups_in_bounds.simps [simp del]

function stages_in_bounds :: "nat \<Rightarrow> nat \<Rightarrow> nat \<Rightarrow> bool" where
  "stages_in_bounds avail n len =
     (if len \<le> n \<and> 0 < len
      then groups_in_bounds avail n len 0 \<and> stages_in_bounds avail n (push_bit 1 len)
      else True)"
  by pat_completeness auto
termination
  by (relation "measure (\<lambda>(avail, n, len). Suc n - len)") (auto simp: push_bit_eq_mult)

declare stages_in_bounds.simps [simp del]

definition fft_1d_in_bounds :: "nat \<Rightarrow> nat \<Rightarrow> int \<Rightarrow> bool" where
  "fft_1d_in_bounds avail n inverse_flag =
     (if n \<le> 1 then True
      else bit_reverse_in_bounds avail n \<and> stages_in_bounds avail n 2
           \<and> (if inverse_flag \<noteq> 0 then n \<le> avail else True))"

text \<open>The row transforms \<^verbatim>\<open>fft_1d(data + i * W, W, inverse)\<close> for \<open>i < H\<close> on an array of
  \<open>avail\<close> elements, and the whole of \<^verbatim>\<open>fft_2d\<close>: the rows of the data, the transposition
  into the scratch buffer, the rows of the scratch buffer and the transposition back.\<close>

definition fft_rows_in_bounds :: "nat \<Rightarrow> nat \<Rightarrow> nat \<Rightarrow> int \<Rightarrow> bool" where
  "fft_rows_in_bounds avail W H inverse_flag =
     list_all (\<lambda>i. fft_1d_in_bounds (avail - i * W) W inverse_flag) [0..<H]"

definition fft_2d_in_bounds ::
  "psf_state \<Rightarrow> complex list option \<Rightarrow> nat \<Rightarrow> nat \<Rightarrow> nat \<Rightarrow> int \<Rightarrow> bool" where
  "fft_2d_in_bounds st mem data_len width height inverse_flag =
     (let W = width; H = height;
          st1 = ensure_fft_temp_buffer st mem (W * H)
      in case fft_temp_buffer st1 of
           None \<Rightarrow> True
         | Some temp \<Rightarrow>
             W * H \<le> data_len \<and> W * H \<le> length temp
             \<and> fft_rows_in_bounds data_len W H inverse_flag
             \<and> fft_rows_in_bounds (length temp) H W inverse_flag)"

section \<open>PSF pipeline and metrics\<close>

definition fft_shift_swap :: "nat \<Rightarrow> nat \<Rightarrow> nat \<Rightarrow> nat \<Rightarrow> real list \<Rightarrow> real list" where
  "fft_shift_swap size_n half i j data =
     (let temp = data ! (i * size_n + j);
          data = data[i * size_n + j := data ! ((i + half) * size_n + (j + half))];
          data = data[(i + half) * size_n + (j + half) := temp];
          temp = data ! (i * size_n + (j + half));
          data = data[i * size_n + (j + half) := data ! ((i + half) * size_n + j)];
          data = data[(i + half) * size_n + j := temp]
      in data)"

definition fft_shift :: "real list \<Rightarrow> nat \<Rightarrow> real list" where
  "fft_shift data size_n =
     (let half = size_n div 2
      in fold (\<lambda>i d. fold (fft_shift_swap size_n half i) [0..<half] d) [0..<half] data)"

text \<open>
  The pupil loop of \<^verbatim>\<open>calculate_psf_grid_wasm\<close> on the zeroed array \<^verbatim>\<open>complex_amp\<close>: the
  three input pointers may be \<^verbatim>\<open>NULL\<close>.  The phase constant and the phase are doubles that
  can be infinite or NaN (a wavelength of zero or close to it).
\<close>

definition grid_pupil_cell ::
  "index_quotient \<Rightarrow> psf_state \<Rightarrow> real list option \<Rightarrow> real list option \<Rightarrow> int list option \<Rightarrow>
   real \<Rightarrow> nat \<Rightarrow> complex" where
  "grid_pupil_cell rq st grid_opd amplitude pupil_mask wavelength i =
     (let k = ddiv (Finite (- 2 * pi)) (Finite wavelength)
      in if pupil_mask \<noteq> None \<and> the pupil_mask ! i \<noteq> 0 then
           let opd = (case grid_opd of None \<Rightarrow> 0 | Some g \<Rightarrow> g ! i);
               a = (case amplitude of None \<Rightarrow> 1 | Some am \<Rightarrow> am ! i);
               phase = dmul k (Finite opd)
           in Complex (a * the_finite (fast_cos rq st phase)) (a * the_finite (fast_sin rq st phase))
         else 0)"

definition grid_pupil ::
  "index_quotient \<Rightarrow> psf_state \<Rightarrow> real list option \<Rightarrow> real list option \<Rightarrow> int list option \<Rightarrow>
   nat \<Rightarrow> real \<Rightarrow> complex list" where
  "grid_pupil rq st grid_opd amplitude pupil_mask total_size wavelength =
     map (grid_pupil_cell rq st grid_opd amplitude pupil_mask wavelength) [0..<total_size]"

text \<open>
  The first step of both PSF entry points,
  \<^verbatim>\<open>if (!sin_table || trig_table_size < total_size) init_fast_trig_tables(total_size);\<close>
\<close>

definition ensure_trig_tables :: "psf_state \<Rightarrow> nat \<Rightarrow> psf_state" where
  "ensure_trig_tables st total_size =
     (if sin_table st = None \<or> trig_table_size st < int total_size
      then init_fast_trig_tables st total_size else st)"

text \<open>
  \<^verbatim>\<open>calculate_psf_grid_wasm\<close>.  \<open>alloc_ok\<close> says whether \<^verbatim>\<open>calloc\<close> and \<^verbatim>\<open>malloc\<close> of the two
  per-call arrays succeed, \<open>mem\<close> is the result of the scratch \<^verbatim>\<open>malloc\<close> inside
  \<^verbatim>\<open>fft_2d\<close>.  The function returns \<^verbatim>\<open>NULL\<close> or the intensity array; where the transform
  of the array \<^verbatim>\<open>complex_amp\<close> of \<open>total_size\<close> elements leaves the array, the call has no
  defined result.  \<open>total_size\<close> is a product of \<^verbatim>\<open>int\<close>s; the model covers the grid sides
  whose square is in the range of \<^verbatim>\<open>int\<close>.
\<close>

datatype psf_return = Null_pointer | Intensity "real list" | Out_of_bounds

definition calculate_psf_grid_wasm ::
  "index_quotient \<Rightarrow> psf_state \<Rightarrow> bool \<Rightarrow> complex list option \<Rightarrow>
   real list option \<Rightarrow> real list option \<Rightarrow> int list option \<Rightarrow> nat \<Rightarrow> real \<Rightarrow>
   psf_state \<times> psf_return" where
  "calculate_psf_grid_wasm rq st alloc_ok mem grid_opd amplitude pupil_mask grid_size wavelength =
     (let total_size = grid_size * grid_size;
          st1 = ensure_trig_tables st total_size
      in if \<not> alloc_ok then (st1, Null_pointer)
         else
           let complex_amp = grid_pupil rq st1 grid_opd amplitude pupil_mask total_size wavelength
           in if \<not> fft_2d_in_bounds st1 mem total_size grid_size grid_size 0
              then (st1, Out_of_bounds)
              else
                let r = fft_2d rq st1 mem complex_amp grid_size grid_size 0;
                    psf_intensity = map (\<lambda>c. Re c * Re c + Im c * Im c) (take total_size (snd r));
                    psf_intensity = fft_shift psf_intensity grid_size
                in (fst r, Intensity psf_intensity))"

text \<open>\<^verbatim>\<open>calculate_encircled_energy\<close>: the total, then one double loop per radius.\<close>

definition encircled_sum :: "real list \<Rightarrow> nat \<Rightarrow> real \<Rightarrow> real" where
  "encircled_sum psf size_n radius =
     (let center = size_n div 2
      in fold (\<lambda>i e. fold (\<lambda>j e.
                 let dx = real_of_int (int i - int center);
                     dy = real_of_int (int j - int center);
                     dist = sqrt (dx * dx + dy * dy)
                 in if dist \<le> radius then e + psf ! (i * size_n + j) else e) [0..<size_n] e)
           [0..<size_n] 0)"

definition calculate_encircled_energy ::
  "real list \<Rightarrow> nat \<Rightarrow> real list \<Rightarrow> real list \<Rightarrow> nat \<Rightarrow> real list" where
  "calculate_encircled_energy psf size_n radii energies radii_count =
     (let total_energy = fold (\<lambda>i t. t + psf ! i) [0..<size_n * size_n] 0
      in fold (\<lambda>r en. en[r := encircled_sum psf size_n (radii ! r) / total_energy])
           [0..<radii_count] energies)"

text \<open>The distance of pixel \<open>(i, j)\<close> from the centre, as the loop body above computes it
  (a name for the statements about the loop).\<close>

definition px_dist :: "nat \<Rightarrow> nat \<Rightarrow> nat \<Rightarrow> real" where
  "px_dist size_n i j =
     sqrt (real_of_int (int i - int (size_n div 2)) * real_of_int (int i - int (size_n div 2))
         + real_of_int (int j - int (size_n div 2)) * real_of_int (int j - int (size_n div 2)))"



text \<open>
  The trigonometric tables are either both missing or hold the samples that
  \<^verbatim>\<open>init_fast_trig_tables\<close> writes for the recorded size: the states that the functions of
  the file produce from a fresh process.
\<close>

definition trig_tables_wf :: "psf_state \<Rightarrow> bool" where
  "trig_tables_wf st =
     (case (sin_table st, cos_table st) of
        (None, None) \<Rightarrow> True
      | (Some s, Some c) \<Rightarrow>
          s = map (\<lambda>i. sin (2 * pi * real i / real_of_int (trig_table_size st)))
                [0..<nat (trig_table_size st)]
          \<and> c = map (\<lambda>i. cos (2 * pi * real i / real_of_int (trig_table_size st)))
                  [0..<nat (trig_table_size st)]
      | (None, Some c) \<Rightarrow> False
      | (Some s, None) \<Rightarrow> False)"


text \<open>The first \<open>n\<close> elements of an array exist and are zero (a name for the statements about
  transforms of the zero field).\<close>

definition zero_upto :: "nat \<Rightarrow> complex list \<Rightarrow> bool" where
  "zero_upto n data = (n \<le> length data \<and> (\<forall>i<n. data ! i = 0))"

text \<open>The scratch buffer holds as many elements as the recorded capacity.\<close>

definition scratch_wf :: "psf_state \<Rightarrow> bool" where
  "scratch_wf st =
     (case fft_temp_buffer st of None \<Rightarrow> True | Some temp \<Rightarrow> length temp = fft_temp_capacity st)"

text \<open>The block that \<^verbatim>\<open>malloc\<close> returns for \<open>need\<close> elements, when it returns one.\<close>

definition malloc_result :: "complex list option \<Rightarrow> nat \<Rightarrow> bool" where
  "malloc_result mem need = (case mem of None \<Rightarrow> True | Some block \<Rightarrow> length block = need)"

section \<open>States used in the examples\<close>

text \<open>The state after \<^verbatim>\<open>init_fast_trig_tables(1)\<close> in a fresh process, and the state after one
  \<^verbatim>\<open>fft_1d\<close> of length 8 in a fresh process.\<close>

definition coarse_trig_state :: psf_state where
  "coarse_trig_state = init_fast_trig_tables initial_state 1"

definition state_after_fft8 :: "index_quotient \<Rightarrow> psf_state" where
  "state_after_fft8 rq = fst (fft_1d rq initial_state (replicate 8 0) 8 0)"

section \<open>Batch entry points are elementwise maps\<close>

lemma fold_update_map:
  "n \<le> length rs \<Longrightarrow> n \<le> length res \<Longrightarrow>
   fold (\<lambda>i res. res[i := f (rs ! i)]) [0..<n] res = map f (take n rs) @ drop n res"
proof (induction n)
  case 0
  then show ?case by simp
next
  case (Suc n)
  then have n: "n < length rs" "n < length res" by simp_all
  have "fold (\<lambda>i res. res[i := f (rs ! i)]) [0..<Suc n] res
        = (map f (take n rs) @ drop n res)[n := f (rs ! n)]"
    using Suc by simp
  also have "\<dots> = map f (take n rs) @ (drop n res)[0 := f (rs ! n)]"
    using n by (simp add: list_update_append)
  also have "drop n res = res ! n # drop (Suc n) res"
    using n by (simp add: Cons_nth_drop_Suc)
  also have "map f (take n rs) @ (res ! n # drop (Suc n) res)[0 := f (rs ! n)]
        = map f (take (Suc n) rs) @ drop (Suc n) res"
    using n by (simp add: take_Suc_conv_app_nth)
  finally show ?case .
qed

text \<open>
  C10.  For every \<open>count\<close> and every radius array, \<^verbatim>\<open>batch_aspheric_sag10\<close> leaves in
  \<^verbatim>\<open>result_array[i]\<close> the value \<^verbatim>\<open>aspheric_sag10(r_array[i], ...)\<close> for every \<open>i < count\<close>,
  and \<^verbatim>\<open>batch_aspheric_sag\<close> the value \<^verbatim>\<open>aspheric_sag(r_array[i], ...)\<close>: each batch entry
  point is the elementwise map of its scalar entry point over the first \<open>count\<close> radii, and
  the rest of the result array is not touched.  Both arrays hold at least \<open>count\<close> elements;
  a negative \<open>count\<close> writes nothing.
\<close>

theorem batch_is_elementwise_map:
  assumes "nat count \<le> length r_array" and "nat count \<le> length result_array"
  shows "batch_aspheric_sag10 r_array count c k a4 a6 a8 a10 a12 a14 a16 a18 a20 a22 result_array
           = map (\<lambda>r. aspheric_sag10 r c k a4 a6 a8 a10 a12 a14 a16 a18 a20 a22)
               (take (nat count) r_array) @ drop (nat count) result_array
         \<and> batch_aspheric_sag r_array count c k a4 a6 a8 a10 result_array
           = map (\<lambda>r. aspheric_sag r c k a4 a6 a8 a10)
               (take (nat count) r_array) @ drop (nat count) result_array"
  unfolding batch_aspheric_sag10_def batch_aspheric_sag_def
  using assms
    fold_update_map [of "nat count" r_array result_array
      "\<lambda>r. aspheric_sag10 r c k a4 a6 a8 a10 a12 a14 a16 a18 a20 a22"]
    fold_update_map [of "nat count" r_array result_array "\<lambda>r. aspheric_sag r c k a4 a6 a8 a10"]
  by simp

theorem batch_is_elementwise_map_witness:
  "batch_aspheric_sag10 [0, 1] 2 0 0 1 1 1 1 1 1 1 1 1 1 [7, 7, 7]
     = [aspheric_sag10 0 0 0 1 1 1 1 1 1 1 1 1 1, aspheric_sag10 1 0 0 1 1 1 1 1 1 1 1 1 1, 7]
   \<and> batch_aspheric_sag [0, 1] 2 0 0 1 1 1 1 [7, 7, 7]
     = [aspheric_sag 0 0 0 1 1 1 1, aspheric_sag 1 0 0 1 1 1 1, 7]
   \<and> aspheric_sag10 1 0 0 1 1 1 1 1 1 1 1 1 1 = 10 \<and> aspheric_sag 1 0 0 1 1 1 1 = 4"
  using batch_is_elementwise_map [of 2 "[0, 1]" "[7, 7, 7]" 0 0 1 1 1 1 1 1 1 1 1 1]
  by (simp add: aspheric_sag10_def aspheric_sag_def)

section \<open>Range of the double arithmetic\<close>

lemma safe_max_bounds:
  "SAFE_MAX < DBL_OVERFLOW" "DBL_UNDERFLOW < 1 / SAFE_MAX" "1 \<le> SAFE_MAX" "0 < DBL_UNDERFLOW"
  "10 ^ 6 \<le> SAFE_MAX"
  by (simp_all add: DBL_OVERFLOW_def DBL_UNDERFLOW_def SAFE_MAX_def field_simps)

lemma dbl_sum_finite: "\<bar>x\<bar> \<le> SAFE_MAX \<Longrightarrow> dbl_sum x = Finite x"
  using safe_max_bounds(1) by (auto simp: dbl_sum_def)

lemma dbl_result_finite: "dbl_in_range x \<Longrightarrow> dbl_result x = Finite x"
proof -
  assume a: "dbl_in_range x"
  have u: "0 < DBL_UNDERFLOW" "DBL_UNDERFLOW < 1 / SAFE_MAX" "0 \<le> SAFE_MAX"
    using safe_max_bounds by simp_all
  show ?thesis
  proof (cases "x = 0")
    case True
    then show ?thesis using u by (simp add: dbl_result_def)
  next
    case False
    then have b: "1 / SAFE_MAX \<le> \<bar>x\<bar>" "\<bar>x\<bar> \<le> SAFE_MAX" using a by (simp_all add: dbl_in_range_def)
    then have "\<not> \<bar>x\<bar> \<le> DBL_UNDERFLOW" using u by linarith
    then show ?thesis using b(2) by (simp add: dbl_result_def dbl_sum_finite)
  qed
qed

lemma dbl_in_range_moderate:
  assumes "x = 0 \<or> 1 / 10 ^ 6 \<le> \<bar>x\<bar>" and "\<bar>x\<bar> \<le> 10 ^ 6"
  shows "dbl_in_range x"
proof -
  have "1 / SAFE_MAX \<le> 1 / 10 ^ 6"
    using safe_max_bounds(5) by (intro frac_le) simp_all
  then show ?thesis
    using assms safe_max_bounds(5) unfolding dbl_in_range_def by linarith
qed

lemma dbl_result_overflow: "DBL_OVERFLOW \<le> x \<Longrightarrow> dbl_result x = PosInf"
proof -
  assume a: "DBL_OVERFLOW \<le> x"
  have "1 / SAFE_MAX \<le> 1" using safe_max_bounds(3) by simp
  then have "DBL_UNDERFLOW < DBL_OVERFLOW"
    using safe_max_bounds by linarith
  then have "\<not> \<bar>x\<bar> \<le> DBL_UNDERFLOW" using a by linarith
  then show ?thesis using a by (simp add: dbl_result_def dbl_sum_def)
qed


lemma asphere_poly_loop_zero:
  "\<forall>c \<in> set cs. c = 0 \<Longrightarrow> asphere_poly_loop cs r2 p a = a"
  by (induction cs arbitrary: p a) auto

lemma rt10_asphere_poly_zero:
  "rt10_asphere_poly r r2 (replicate 10 0) modeOdd = Finite 0"
  by (simp add: rt10_asphere_poly_def asphere_poly_loop_zero)

lemma sag_rt10_sqrt_term:
  assumes "radius \<noteq> 0"
    and "\<bar>1 + conic\<bar> \<le> SAFE_MAX"
    and "dbl_in_range (r * r)"
    and "dbl_in_range ((1 + conic) * (r * r))"
    and "dbl_in_range (radius * radius)"
    and "dbl_in_range ((1 + conic) * (r * r) / (radius * radius))"
    and "\<bar>1 - (1 + conic) * (r * r) / (radius * radius)\<bar> \<le> SAFE_MAX"
  shows "dsub (Finite 1)
           (ddiv (dmul (dadd (Finite 1) (Finite conic)) (dmul (Finite r) (Finite r)))
                 (dmul (Finite radius) (Finite radius)))
         = Finite (1 - (1 + conic) * (r * r) / (radius * radius))"
proof -
  have "radius * radius \<noteq> 0" using assms(1) by simp
  then show ?thesis
    using assms by (simp add: dsub_def dbl_sum_finite dbl_result_finite)
qed

lemma sag_rt10_outside:
  assumes "radius \<noteq> 0"
    and "\<bar>1 + conic\<bar> \<le> SAFE_MAX"
    and "dbl_in_range (r * r)"
    and "dbl_in_range ((1 + conic) * (r * r))"
    and "dbl_in_range (radius * radius)"
    and "dbl_in_range ((1 + conic) * (r * r) / (radius * radius))"
    and "\<bar>1 - (1 + conic) * (r * r) / (radius * radius)\<bar> \<le> SAFE_MAX"
    and "1 - (1 + conic) * (r * r) / (radius * radius) < 0"
  shows "aspheric_sag_rt10 r radius conic coefs modeOdd = 0"
  unfolding aspheric_sag_rt10_def Let_def sag_rt10_sqrt_term [OF assms(1-7)]
  using assms(1,8) by simp

lemma sag_rt10_inside:
  assumes "radius \<noteq> 0"
    and "\<bar>1 + conic\<bar> \<le> SAFE_MAX"
    and "dbl_in_range (r * r)"
    and "dbl_in_range ((1 + conic) * (r * r))"
    and "dbl_in_range (radius * radius)"
    and "dbl_in_range ((1 + conic) * (r * r) / (radius * radius))"
    and "\<bar>1 - (1 + conic) * (r * r) / (radius * radius)\<bar> \<le> SAFE_MAX"
    and "0 \<le> 1 - (1 + conic) * (r * r) / (radius * radius)"
    and "1 + sqrt (1 - (1 + conic) * (r * r) / (radius * radius)) \<le> SAFE_MAX"
    and "dbl_in_range (radius * (1 + sqrt (1 - (1 + conic) * (r * r) / (radius * radius))))"
    and "dbl_in_range (r * r / (radius * (1 + sqrt (1 - (1 + conic) * (r * r) / (radius * radius)))))"
  shows "aspheric_sag_rt10 r radius conic (replicate 10 0) modeOdd
         = r * r / (radius * (1 + sqrt (1 - (1 + conic) * (r * r) / (radius * radius))))"
proof -
  let ?q = "(1 + conic) * (r * r) / (radius * radius)"
  let ?s = "sqrt (1 - ?q)"
  have s0: "0 \<le> ?s" using assms(8) by simp
  then have "0 < 1 + ?s" by linarith
  then have d: "radius * (1 + ?s) \<noteq> 0" using assms(1) by simp
  have s1: "\<bar>1 + ?s\<bar> \<le> SAFE_MAX" using s0 assms(9) by simp
  have "0 \<le> SAFE_MAX" using safe_max_bounds(3) by simp
  then have b: "\<bar>r * r / (radius * (1 + ?s))\<bar> \<le> SAFE_MAX"
    using assms(11) by (auto simp: dbl_in_range_def)
  have base: "ddiv (dmul (Finite r) (Finite r))
                 (dmul (Finite radius) (dadd (Finite 1) (dsqrt (Finite (1 - ?q)))))
              = Finite (r * r / (radius * (1 + ?s)))"
    using assms(3,8,10,11) d s1 by (simp add: dbl_sum_finite dbl_result_finite)
  show ?thesis
    unfolding aspheric_sag_rt10_def Let_def sag_rt10_sqrt_term [OF assms(1-7)] base rt10_asphere_poly_zero
    using assms(1,8) b by (simp add: dbl_sum_finite)
qed

lemma sq_le_iff_abs: "(r * r / (R * R) \<le> 1) = (\<bar>r\<bar> \<le> \<bar>R\<bar>)" if "R \<noteq> 0" for r R :: real
proof -
  have "0 < R * R" using that by (simp add: zero_less_mult_iff not_less) (metis linorder_neqE_linordered_idom)
  then have "(r * r / (R * R) \<le> 1) = (r * r \<le> R * R)" by (simp add: pos_divide_le_eq)
  also have "\<dots> = (\<bar>r\<bar> \<le> \<bar>R\<bar>)"
    using abs_le_square_iff [of r R] by (simp add: power2_eq_square)
  finally show ?thesis .
qed

lemma square_bounds:
  fixes x H :: real
  assumes "1 / H \<le> \<bar>x\<bar>" and "\<bar>x\<bar> \<le> H" and "0 < H"
  shows "1 / (H * H) \<le> x * x" and "x * x \<le> H * H"
proof -
  have e: "x * x = \<bar>x\<bar> * \<bar>x\<bar>" by (cases "0 \<le> x") (simp_all add: abs_if)
  have "(1 / H) * (1 / H) \<le> \<bar>x\<bar> * \<bar>x\<bar>"
    using assms by (intro mult_mono) simp_all
  then show "1 / (H * H) \<le> x * x" unfolding e by simp
  show "x * x \<le> H * H"
    unfolding e using assms by (intro mult_mono) simp_all
qed

lemma safe_max_75:
  "(10 ^ 75 * 10 ^ 75) * (10 ^ 75 * 10 ^ 75) \<le> SAFE_MAX"
  "2 * 10 ^ 75 * (10 ^ 75 * 10 ^ 75) \<le> SAFE_MAX"
  "2 * 10 ^ 75 \<le> SAFE_MAX"
  by (simp_all add: SAFE_MAX_def)


lemma overflow_10_400: "DBL_OVERFLOW \<le> 10 ^ 200 * 10 ^ 200"
proof -
  have "(0::real) \<le> 2 ^ 970" by (rule zero_le_power) simp
  then have "DBL_OVERFLOW \<le> 2 ^ 1024" unfolding DBL_OVERFLOW_def by linarith
  also have "(2::real) ^ 1024 \<le> 2 ^ 1200" by (rule power_increasing) simp_all
  also have "(2::real) ^ 1200 = (2 ^ 3) ^ 400" by (simp only: power_mult [symmetric]) simp
  also have "((2::real) ^ 3) ^ 400 \<le> 10 ^ 400" by (rule power_mono) simp_all
  also have "(10::real) ^ 400 = 10 ^ 200 * 10 ^ 200" by (simp only: power_add [symmetric]) simp
  finally show ?thesis .
qed

section \<open>Pure conic sag\<close>

text \<open>
  C4, as the code has it.  For \<open>r\<close> and \<open>R\<close> whose magnitudes lie between \<open>1e-75\<close> and \<open>1e75\<close>
  (\<open>r\<close> may also be 0), with conic constant 0 and the ten polynomial coefficients all zero,
  in either mode, \<^verbatim>\<open>aspheric_sag_rt10\<close> returns \<open>r\<^sup>2 / (R * (1 + sqrt (1 - r\<^sup>2 / R\<^sup>2)))\<close> when
  \<open>\<bar>r\<bar> \<le> \<bar>R\<bar>\<close> and 0 otherwise: no square, quotient or product of the evaluation leaves
  the range of the doubles there.
\<close>

theorem pure_conic_sag_in_range:
  assumes "r = 0 \<or> (1 / 10 ^ 75 \<le> \<bar>r\<bar> \<and> \<bar>r\<bar> \<le> 10 ^ 75)"
    and "1 / 10 ^ 75 \<le> \<bar>R\<bar>" and "\<bar>R\<bar> \<le> 10 ^ 75"
  shows "aspheric_sag_rt10 r R 0 (replicate 10 0) modeOdd
         = (if \<bar>r\<bar> \<le> \<bar>R\<bar> then r\<^sup>2 / (R * (1 + sqrt (1 - r\<^sup>2 / R\<^sup>2))) else 0)"
proof -
  define H :: real where "H = 10 ^ 75"
  have H: "0 < H" by (simp add: H_def)
  have HH: "0 < H * H" using H by simp
  have S4: "(H * H) * (H * H) \<le> SAFE_MAX" and S3: "2 * H * (H * H) \<le> SAFE_MAX"
    and S1: "2 * H \<le> SAFE_MAX"
    unfolding H_def by (rule safe_max_75)+
  have Spos: "0 < SAFE_MAX" using safe_max_bounds(3) by simp
  have rH: "r = 0 \<or> (1 / H \<le> \<bar>r\<bar> \<and> \<bar>r\<bar> \<le> H)" and RH: "1 / H \<le> \<bar>R\<bar>" "\<bar>R\<bar> \<le> H"
    using assms unfolding H_def by blast+
  let ?q = "r * r / (R * R)"
  have "0 < 1 / H" using H by simp
  then have R0: "R \<noteq> 0" using RH(1) by auto
  note RR = square_bounds [OF RH H]
  have RRpos: "0 < R * R" using R0 by (simp add: zero_less_mult_iff not_less) (metis linorder_neqE_linordered_idom)
  have rr0: "0 \<le> r * r" by simp
  have rr: "r * r \<le> H * H" "r \<noteq> 0 \<Longrightarrow> 1 / (H * H) \<le> r * r"
    using rH square_bounds [of H r] H HH by auto
  have q0: "0 \<le> ?q" using RRpos by simp
  have "?q \<le> (H * H) / (1 / (H * H))"
    using rr0 rr(1) RR(1) HH by (intro frac_le) simp_all
  then have q1: "?q \<le> SAFE_MAX" using S4 by simp
  have q2: "1 / SAFE_MAX \<le> ?q" if "r \<noteq> 0"
  proof -
    have "(1 / (H * H)) / (H * H) \<le> ?q"
      using rr(2) [OF that] RR(2) RRpos rr0 by (intro frac_le) simp_all
    moreover have "1 / SAFE_MAX \<le> 1 / ((H * H) * (H * H))"
      using S4 HH by (intro frac_le) simp_all
    ultimately show ?thesis by simp
  qed
  have hi: "x \<le> SAFE_MAX" if "x \<le> H * H" for x
  proof -
    have "1 * (H * H) \<le> (H * H) * (H * H)"
    proof (rule mult_right_mono)
      have "1 \<le> H" by (simp add: H_def)
      then have "1 * 1 \<le> H * H" by (intro mult_mono) simp_all
      then show "1 \<le> H * H" by simp
      show "0 \<le> H * H" using HH by simp
    qed
    then show ?thesis using that S4 by simp
  qed
  have lo: "1 / SAFE_MAX \<le> x" if "1 / (H * H) \<le> x" for x
  proof -
    have "1 / SAFE_MAX \<le> 1 / (H * H)"
      using hi [of "H * H"] HH by (intro frac_le) simp_all
    then show ?thesis using that by simp
  qed
  have in_rr: "dbl_in_range (r * r)"
    using rr rr0 hi [of "r * r"] lo [of "r * r"] by (cases "r = 0") (auto simp: dbl_in_range_def)
  have in_RR: "dbl_in_range (R * R)"
    using RR RRpos hi [of "R * R"] lo [of "R * R"] by (simp add: dbl_in_range_def)
  have in_q: "dbl_in_range ?q"
    using q0 q1 q2 by (cases "r = 0") (auto simp: dbl_in_range_def)
  have st: "\<bar>1 - ?q\<bar> \<le> SAFE_MAX" using q0 q1 safe_max_bounds(3) unfolding abs_le_iff by linarith
  have c0: "\<bar>1 + (0::real)\<bar> \<le> SAFE_MAX" using safe_max_bounds(3) by simp
  have in_c: "dbl_in_range ((1 + 0) * (r * r))" using in_rr by simp
  have in_q': "dbl_in_range ((1 + 0) * (r * r) / (R * R))" using in_q by simp
  have st': "\<bar>1 - (1 + 0) * (r * r) / (R * R)\<bar> \<le> SAFE_MAX" using st by simp
  note common = R0 c0 in_rr in_c in_RR in_q' st'
  show ?thesis
  proof (cases "\<bar>r\<bar> \<le> \<bar>R\<bar>")
    case False
    then have "1 - (1 + 0) * (r * r) / (R * R) < 0"
      using sq_le_iff_abs [OF R0, of r] by simp
    then have "aspheric_sag_rt10 r R 0 (replicate 10 0) modeOdd = 0"
      by (rule sag_rt10_outside [OF common])
    then show ?thesis using False by simp
  next
    case True
    then have qle: "?q \<le> 1" using sq_le_iff_abs [OF R0, of r] by simp
    let ?s = "sqrt (1 - ?q)"
    have s0: "0 \<le> ?s" using qle by simp
    have "?s \<le> sqrt 1" using q0 by (intro real_sqrt_le_mono) simp
    then have s1: "?s \<le> 1" by simp
    have den: "\<bar>R * (1 + ?s)\<bar> = \<bar>R\<bar> * (1 + ?s)" using s0 by (simp add: abs_mult)
    have "\<bar>R\<bar> * 1 \<le> \<bar>R\<bar> * (1 + ?s)" using s0 by (intro mult_left_mono) simp_all
    then have dlo: "1 / H \<le> \<bar>R\<bar> * (1 + ?s)" using RH(1) by simp
    have "\<bar>R\<bar> * (1 + ?s) \<le> H * 2" using RH(2) s0 s1 by (intro mult_mono) simp_all
    then have dhi: "\<bar>R\<bar> * (1 + ?s) \<le> 2 * H" by simp
    have dpos: "0 < \<bar>R\<bar> * (1 + ?s)" using dlo \<open>0 < 1 / H\<close> by linarith
    have "H \<le> 1 * (H * H)"
    proof -
      have "1 \<le> H" by (simp add: H_def)
      then have "1 * H \<le> H * H" using H by (intro mult_right_mono) simp_all
      then show ?thesis by simp
    qed
    then have "1 / (H * H) \<le> 1 / H" using H by (intro frac_le) simp_all
    then have "1 / SAFE_MAX \<le> \<bar>R\<bar> * (1 + ?s)" using dlo lo [of "1 / H"] by linarith
    moreover have "\<bar>R\<bar> * (1 + ?s) \<le> SAFE_MAX" using dhi S1 by linarith
    ultimately have in_den: "dbl_in_range (R * (1 + ?s))"
      unfolding dbl_in_range_def den by blast
    have babs: "\<bar>r * r / (R * (1 + ?s))\<bar> = r * r / (\<bar>R\<bar> * (1 + ?s))"
      using s0 by (simp add: abs_mult)
    have "r * r / (\<bar>R\<bar> * (1 + ?s)) \<le> (H * H) / (1 / H)"
      using rr0 rr(1) dlo H HH by (intro frac_le) simp_all
    moreover have "(H * H) / (1 / H) \<le> 2 * H * (H * H)" using H HH by (simp add: field_simps)
    ultimately have bhi: "r * r / (\<bar>R\<bar> * (1 + ?s)) \<le> SAFE_MAX" using S3 by linarith
    have blo: "1 / SAFE_MAX \<le> r * r / (\<bar>R\<bar> * (1 + ?s))" if "r \<noteq> 0"
    proof -
      have "(1 / (H * H)) / (2 * H) \<le> r * r / (\<bar>R\<bar> * (1 + ?s))"
        using rr(2) [OF that] dhi dpos rr0 by (intro frac_le) simp_all
      moreover have "1 / SAFE_MAX \<le> 1 / (2 * H * (H * H))"
        using S3 H HH by (intro frac_le) simp_all
      moreover have "1 / (2 * H * (H * H)) = (1 / (H * H)) / (2 * H)" by simp
      ultimately show ?thesis by linarith
    qed
    have in_base: "dbl_in_range (r * r / (R * (1 + ?s)))"
    proof (cases "r = 0")
      case True
      then show ?thesis by (simp add: dbl_in_range_def)
    next
      case False
      have "1 / SAFE_MAX \<le> \<bar>r * r / (R * (1 + ?s))\<bar> \<and> \<bar>r * r / (R * (1 + ?s))\<bar> \<le> SAFE_MAX"
        unfolding babs using blo [OF False] bhi by (rule conjI)
      then show ?thesis unfolding dbl_in_range_def by (rule disjI2)
    qed
    have "1 \<le> H" by (simp add: H_def)
    then have "1 + ?s \<le> SAFE_MAX" using s1 S1 by linarith
    then have s300: "1 + sqrt (1 - (1 + 0) * (r * r) / (R * R)) \<le> SAFE_MAX" by simp
    have pos: "0 \<le> 1 - (1 + 0) * (r * r) / (R * R)" using qle by simp
    have in_den': "dbl_in_range (R * (1 + sqrt (1 - (1 + 0) * (r * r) / (R * R))))"
      using in_den by simp
    have in_base': "dbl_in_range (r * r / (R * (1 + sqrt (1 - (1 + 0) * (r * r) / (R * R)))))"
      using in_base by simp
    have "aspheric_sag_rt10 r R 0 (replicate 10 0) modeOdd
          = r * r / (R * (1 + sqrt (1 - (1 + 0) * (r * r) / (R * R))))"
      by (rule sag_rt10_inside [OF common pos s300 in_den' in_base'])
    then show ?thesis using True by (simp add: power2_eq_square)
  qed
qed

theorem pure_conic_sag_witness:
  "aspheric_sag_rt10 1 10 0 (replicate 10 0) 0 = 1 / (10 * (1 + sqrt (99 / 100)))
   \<and> aspheric_sag_rt10 11 10 0 (replicate 10 0) 1 = 0
   \<and> aspheric_sag_rt10 0 10 0 (replicate 10 0) 1 = 0"
  using pure_conic_sag_in_range [of 1 10 0] pure_conic_sag_in_range [of 11 10 1]
    pure_conic_sag_in_range [of 0 10 1]
  by simp

text \<open>
  The claim as stated covers every \<open>r\<close> and every \<open>R \<noteq> 0\<close>.  For \<open>r = R = 1e200\<close> the square
  \<^verbatim>\<open>r * r\<close> overflows to infinity, the quotient of the two infinite squares is NaN, and the
  test \<^verbatim>\<open>isfinite(sqrtTerm)\<close> makes the function return 0, where the claim has
  \<open>r\<^sup>2 / (R * (1 + sqrt (1 - r\<^sup>2 / R\<^sup>2))) = 1e200\<close>.
\<close>

theorem pure_conic_sag_overflow_counterexample:
  "aspheric_sag_rt10 (10 ^ 200) (10 ^ 200) 0 (replicate 10 0) 0 = 0
   \<and> \<bar>10 ^ 200 :: real\<bar> \<le> \<bar>10 ^ 200\<bar> \<and> (10 ^ 200 :: real) \<noteq> 0
   \<and> (10 ^ 200)\<^sup>2 / (10 ^ 200 * (1 + sqrt (1 - (10 ^ 200)\<^sup>2 / (10 ^ 200)\<^sup>2))) = (10 ^ 200 :: real)"
proof -
  define x :: real where "x = 10 ^ 200"
  have x: "0 < x" unfolding x_def by (rule zero_less_power) simp
  have ov: "DBL_OVERFLOW \<le> x * x" unfolding x_def by (rule overflow_10_400)
  have m: "dmul (Finite x) (Finite x) = PosInf" using ov by (simp add: dbl_result_overflow)
  have one: "dadd (Finite 1) (Finite 0) = Finite 1"
    using safe_max_bounds(3) by (simp add: dbl_sum_finite)
  have "aspheric_sag_rt10 x x 0 (replicate 10 0) 0 = 0"
    unfolding aspheric_sag_rt10_def Let_def m one using x by (simp add: dsub_def)
  moreover have "x\<^sup>2 / (x * (1 + sqrt (1 - x\<^sup>2 / x\<^sup>2))) = x"
    using x by (simp add: power2_eq_square)
  ultimately show ?thesis unfolding x_def [symmetric] using x by simp
qed

section \<open>Solver hit postcondition\<close>

lemma newton_iterate_hit:
  assumes "newton_iterate ox oy oz dx dy dz semidia radius conic coefs modeOdd tol m t0 = Some v"
    and "v \<noteq> - 1"
  shows "0 < v
       \<and> \<bar>(oz + dz * v)
            - aspheric_sag_rt10 (sqrt ((ox + dx * v) * (ox + dx * v) + (oy + dy * v) * (oy + dy * v)))
                radius conic coefs modeOdd\<bar> < tol
       \<and> \<not> (semidia > 0
            \<and> sqrt ((ox + dx * v) * (ox + dx * v) + (oy + dy * v) * (oy + dy * v)) > semidia)"
  using assms
proof (induction m arbitrary: t0)
  case 0
  then show ?case by simp
next
  case (Suc m)
  show ?case
  proof (cases "\<bar>(oz + dz * t0)
            - aspheric_sag_rt10 (sqrt ((ox + dx * t0) * (ox + dx * t0) + (oy + dy * t0) * (oy + dy * t0)))
                radius conic coefs modeOdd\<bar> < tol")
    case True
    with Suc.prems have "v = t0 \<and> 0 < t0
        \<and> \<not> (semidia > 0 \<and> sqrt ((ox + dx * t0) * (ox + dx * t0) + (oy + dy * t0) * (oy + dy * t0)) > semidia)"
      by (auto simp: Let_def split: if_splits)
    with True show ?thesis by simp
  next
    case False
    with Suc.prems obtain t' where
      "newton_iterate ox oy oz dx dy dz semidia radius conic coefs modeOdd tol m t' = Some v"
      by (auto simp: Let_def split: if_splits)
    with Suc.IH Suc.prems(2) show ?thesis by blast
  qed
qed

lemma try_guesses_hit:
  assumes "try_guesses ox oy oz dx dy dz semidia radius conic coefs modeOdd tol maxIter guesses = v"
    and "v \<noteq> - 1"
  shows "\<exists>t0. newton_iterate ox oy oz dx dy dz semidia radius conic coefs modeOdd tol maxIter t0 = Some v"
  using assms
  by (induction guesses) (auto split: if_splits option.splits)

text \<open>
  C3.  For every ray and every profile with semidiameter \<open>> 0\<close>: when
  \<^verbatim>\<open>intersect_aspheric_rt10\<close> returns a value \<open>t\<close> other than the sentinel \<open>-1\<close>, the point
  \<open>p = origin + t * direction\<close> satisfies \<open>\<bar>p.z - sag (sqrt (p.x\<^sup>2 + p.y\<^sup>2))\<bar> < tol\<close>, hence
  \<open>\<le> tol\<close>, its radial distance is at most the semidiameter, and \<open>t\<close> is positive.  \<open>tol\<close> is the
  tolerance of the call: the caller's argument when that is positive, and the default
  \<open>1e-7\<close> that the function puts in its place otherwise.
\<close>

theorem intersect_hit_postcondition:
  assumes "0 < semidia"
    and "intersect_aspheric_rt10 ox oy oz dx dy dz semidia radius conic coefs modeOdd maxIter tol = t"
    and "t \<noteq> - 1"
  shows "let tol_used = (if tol > 0 then tol else 1 / 10 ^ 7);
             px = ox + dx * t;
             py = oy + dy * t;
             pz = oz + dz * t
         in \<bar>pz - aspheric_sag_rt10 (sqrt (px * px + py * py)) radius conic coefs modeOdd\<bar> < tol_used
          \<and> sqrt (px * px + py * py) \<le> semidia
          \<and> 0 < t"
proof -
  obtain t0 where "newton_iterate ox oy oz dx dy dz semidia radius conic coefs modeOdd
      (if \<not> tol > 0 then 1 / 10 ^ 7 else tol) (nat (if \<not> maxIter > 0 then 20 else maxIter)) t0 = Some t"
    using try_guesses_hit [OF _ assms(3)] assms(2)
    unfolding intersect_aspheric_rt10_def Let_def by blast
  from newton_iterate_hit [OF this assms(3)] assms(1) show ?thesis
    by (auto simp: Let_def)
qed

text \<open>
  An example that takes one Newton step: the ray from \<open>(3, 0, -5)\<close> along the axis onto the
  paraboloid with vertex radius 5 (conic constant \<open>-1\<close>).  The first seed is the crossing
  \<open>t = 6\<close> with the sphere of radius 5, where the residual is \<open>1 / 10\<close>; the step leads to
  \<open>t = 59 / 10\<close>, on the surface.
\<close>

lemma sqrt_64: "sqrt 64 = 8"
  using real_sqrt_abs2 [of 8] by simp

lemma sqrt_9: "sqrt 9 = 3"
  using real_sqrt_abs2 [of 3] by simp

lemma parabola_guesses: "initial_guesses 3 0 (- 5) 0 0 1 4 5 = [6, 14, 5]"
  by (simp add: initial_guesses_def sphere_guesses_def Let_def sqrt_64 sqrt_9 EPS_T_def EPS_DIRZ_def EPS_R_def)

lemma parabola_sag: "aspheric_sag_rt10 3 5 (- 1) (replicate 10 0) 0 = 9 / 10"
proof -
  have r: "dbl_in_range x" if "x = 0 \<or> 1 / 10 ^ 6 \<le> \<bar>x\<bar>" "\<bar>x\<bar> \<le> 10 ^ 6" for x
    using that by (rule dbl_in_range_moderate)
  have "aspheric_sag_rt10 3 5 (- 1) (replicate 10 0) 0
        = 3 * 3 / (5 * (1 + sqrt (1 - (1 + - 1) * (3 * 3) / (5 * 5))))"
    using safe_max_bounds(3,5) by (intro sag_rt10_inside r) simp_all
  then show ?thesis by simp
qed

lemma asphere_dzdr_loop_zero:
  "\<forall>c \<in> set cs. c = 0 \<Longrightarrow> asphere_dzdr_loop cs odd_mode i r2 p dz = dz"
  by (induction cs arbitrary: i p dz) auto

lemma rt10_asphere_dzdr_zero: "rt10_asphere_dzdr r r2 (replicate 10 0) modeOdd = 0"
  by (simp add: rt10_asphere_dzdr_def asphere_dzdr_loop_zero)

lemma parabola_newton:
  "newton_iterate 3 0 (- 5) 0 0 1 4 5 (- 1) (replicate 10 0) 0 (1 / 10 ^ 9) (Suc (Suc m)) 6 = Some (59 / 10)"
  by (simp add: Let_def sqrt_9 parabola_sag rt10_asphere_dzdr_zero EPS_R_def EPS_DFDT_def)

lemma parabola_hit:
  "intersect_aspheric_rt10 3 0 (- 5) 0 0 1 4 5 (- 1) (replicate 10 0) 0 20 (1 / 10 ^ 9) = 59 / 10"
proof -
  have "try_guesses 3 0 (- 5) 0 0 1 4 5 (- 1) (replicate 10 0) 0 (1 / 10 ^ 9) (Suc (Suc 18)) [6, 14, 5]
        = 59 / 10"
    using parabola_newton [of 18] by (simp del: newton_iterate.simps)
  then show ?thesis
    unfolding intersect_aspheric_rt10_def Let_def parabola_guesses by simp
qed

theorem intersect_hit_postcondition_witness:
  "(0::real) < 4
   \<and> intersect_aspheric_rt10 3 0 (- 5) 0 0 1 4 5 (- 1) (replicate 10 0) 0 20 (1 / 10 ^ 9) = 59 / 10
   \<and> (59 / 10 :: real) \<noteq> - 1
   \<and> \<bar>(- 5 + 1 * (59 / 10))
        - aspheric_sag_rt10 (sqrt ((3 + 0 * (59 / 10)) * (3 + 0 * (59 / 10)) + (0 + 0 * (59 / 10)) * (0 + 0 * (59 / 10))))
            5 (- 1) (replicate 10 0) 0\<bar> < 1 / 10 ^ 9
   \<and> sqrt ((3 + 0 * (59 / 10)) * (3 + 0 * (59 / 10)) + (0 + 0 * (59 / 10)) * (0 + 0 * (59 / 10))) \<le> (4::real)
   \<and> (0::real) < 59 / 10"
  using intersect_hit_postcondition [of 4 3 0 "- 5" 0 0 1 5 "- 1" "replicate 10 0" 0 20 "1 / 10 ^ 9" "59 / 10"]
    parabola_hit
  by (simp add: Let_def)

section \<open>Trigonometric helpers on non-finite arguments\<close>


lemma trig_tables_wf_initial: "trig_tables_wf initial_state"
  by (simp add: trig_tables_wf_def initial_state_def)





section \<open>Scratch buffer growth failure\<close>

lemma ensure_fft_temp_buffer_fail:
  "fft_temp_capacity st < need \<Longrightarrow>
   ensure_fft_temp_buffer st None need
     = (if fft_temp_buffer st \<noteq> None then st\<lparr>fft_temp_buffer := None, fft_temp_capacity := 0\<rparr> else st)"
  by (simp add: ensure_fft_temp_buffer_def Let_def)

text \<open>
  C6, as the code has it.  When a 2D FFT needs more scratch than the current capacity and
  the growth allocation fails, the buffer held before has already been freed: the pointer
  is \<^verbatim>\<open>NULL\<close> and the capacity 0 afterwards, and nothing else of the state changes.
  \<^verbatim>\<open>fft_2d\<close> sees the \<^verbatim>\<open>NULL\<close> pointer and returns with every element of the caller's data
  as it was.
\<close>

theorem fft_2d_scratch_growth_failure:
  assumes "fft_temp_capacity st < width * height"
  shows "fft_2d rq st None data width height inverse_flag
         = (if fft_temp_buffer st \<noteq> None
            then st\<lparr>fft_temp_buffer := None, fft_temp_capacity := 0\<rparr> else st, data)"
  using assms by (auto simp: fft_2d_def Let_def ensure_fft_temp_buffer_fail)

theorem fft_2d_scratch_growth_failure_witness:
  "fft_temp_capacity (initial_state\<lparr>fft_temp_buffer := Some [5], fft_temp_capacity := 1\<rparr>) < 2 * 2
   \<and> fft_2d exact_quotient (initial_state\<lparr>fft_temp_buffer := Some [5], fft_temp_capacity := 1\<rparr>)
         None [1, 2, 3, 4] 2 2 0
       = (initial_state\<lparr>fft_temp_buffer := None, fft_temp_capacity := 0\<rparr>, [1, 2, 3, 4])"
  using fft_2d_scratch_growth_failure
    [where st = "initial_state\<lparr>fft_temp_buffer := Some [5], fft_temp_capacity := 1\<rparr>"
       and width = 2 and height = 2 and data = "[1, 2, 3, 4]" and inverse_flag = 0 and rq = exact_quotient]
  by (simp add: initial_state_def)

text \<open>
  The claim as stated says that the buffer held before is left in place unchanged.  After
  a 1 x 1 transform in a fresh process the scratch buffer holds one element; a 2 x 2
  transform whose allocation fails then leaves no buffer at all (and the data untouched).
\<close>

theorem scratch_buffer_left_in_place_counterexample:
  "fft_temp_capacity (fst (fft_2d exact_quotient initial_state (Some [0]) [5] 1 1 0)) < 2 * 2
   \<and> fft_temp_buffer (fst (fft_2d exact_quotient initial_state (Some [0]) [5] 1 1 0)) = Some [5]
   \<and> fft_temp_buffer
        (fst (fft_2d exact_quotient (fst (fft_2d exact_quotient initial_state (Some [0]) [5] 1 1 0)) None [1, 2, 3, 4] 2 2 0)) = None
   \<and> snd (fft_2d exact_quotient (fst (fft_2d exact_quotient initial_state (Some [0]) [5] 1 1 0)) None [1, 2, 3, 4] 2 2 0)
        = [1, 2, 3, 4]"
  by (simp add: fft_2d_def ensure_fft_temp_buffer_def initial_state_def Let_def fft_row_def fft_1d_def
        transpose_complex_def transpose_rows.simps transpose_cols.simps transpose_block_def)

section \<open>Encircled energy\<close>

lemma fold_cond_add:
  "fold (\<lambda>j e. if P j then e + g j else e) [0..<n] (a::real) = a + (\<Sum>j<n. if P j then g j else 0)"
  by (induction n) simp_all

lemma fold_add_sum:
  "fold (\<lambda>i e. e + f i) [0..<n] (a::real) = a + (\<Sum>i<n. f i)"
  by (induction n) simp_all

lemma encircled_sum_eq:
  "encircled_sum psf size_n radius
     = (\<Sum>i<size_n. \<Sum>j<size_n. if px_dist size_n i j \<le> radius then psf ! (i * size_n + j) else 0)"
proof -
  have inner: "fold (\<lambda>j e. if px_dist size_n i j \<le> radius then e + psf ! (i * size_n + j) else e) [0..<size_n]
         = (\<lambda>e. e + (\<Sum>j<size_n. if px_dist size_n i j \<le> radius then psf ! (i * size_n + j) else 0))" for i
    by (rule ext) (rule fold_cond_add)
  show ?thesis
    unfolding encircled_sum_def Let_def px_dist_def [symmetric]
    by (simp add: inner fold_add_sum)
qed

lemma total_eq: "fold (\<lambda>i t. t + psf ! i) [0..<n] (0::real) = (\<Sum>k<n. psf ! k)"
  by (simp add: fold_add_sum)

lemma sum_rows: "(\<Sum>i<n. \<Sum>j<k. f (i * k + j)) = (\<Sum>m<n * k. f m)" for f :: "nat \<Rightarrow> real"
proof -
  have "(\<Sum>j<k. f (i * k + j)) = sum f {i * k..<i * k + k}" for i
    using sum.shift_bounds_nat_ivl [of f 0 "i * k" k] by (simp add: atLeast0LessThan add.commute)
  then show ?thesis using sum.nat_group [of f k n] by simp
qed

lemma sum_list_nth: "sum_list xs = (\<Sum>k<length xs. xs ! k)" for xs :: "real list"
  by (simp add: sum_list_sum_nth atLeast0LessThan)

lemma px_dist_bound: "px_dist size_n i j \<le> real size_n * sqrt 2 / 2" if "i < size_n" "j < size_n"
proof -
  have b: "real_of_int (int a - int (size_n div 2)) * real_of_int (int a - int (size_n div 2))
           \<le> (real size_n / 2) * (real size_n / 2)" if "a < size_n" for a
  proof -
    have "2 * (size_n div 2) \<le> size_n" "size_n \<le> 2 * (size_n div 2) + 1" by simp_all
    then have "2 * real (size_n div 2) \<le> real size_n" "real size_n \<le> 2 * real (size_n div 2) + 1"
      by linarith+
    moreover have "real a + 1 \<le> real size_n" using that by linarith
    ultimately have "\<bar>real a - real (size_n div 2)\<bar> \<le> real size_n / 2"
      by linarith
    then have "\<bar>real_of_int (int a - int (size_n div 2))\<bar> \<le> real size_n / 2"
      by simp
    then have "\<bar>real_of_int (int a - int (size_n div 2))\<bar> * \<bar>real_of_int (int a - int (size_n div 2))\<bar>
               \<le> (real size_n / 2) * (real size_n / 2)"
      by (intro mult_mono) simp_all
    then show ?thesis by simp
  qed
  have "px_dist size_n i j \<le> sqrt ((real size_n / 2) * (real size_n / 2) + (real size_n / 2) * (real size_n / 2))"
    unfolding px_dist_def using b [OF that(1)] b [OF that(2)] by (intro real_sqrt_le_mono add_mono)
  also have "(real size_n / 2) * (real size_n / 2) + (real size_n / 2) * (real size_n / 2)
             = 2 * (real size_n / 2)\<^sup>2" by (simp add: power2_eq_square)
  also have "sqrt (2 * (real size_n / 2)\<^sup>2) = real size_n * sqrt 2 / 2"
    by (simp add: real_sqrt_mult)
  finally show ?thesis .
qed

lemma cell_index: "i < n \<Longrightarrow> j < n \<Longrightarrow> i * n + j < n * n" for i j n :: nat
proof -
  assume a: "i < n" "j < n"
  then have "i * n + j < i * n + n" by simp
  also have "\<dots> = Suc i * n" by simp
  also have "\<dots> \<le> n * n" using a(1) by (metis Suc_leI mult_le_mono1)
  finally show ?thesis .
qed

lemma encircled_sum_mono:
  assumes "length psf = size_n * size_n" and "\<forall>v \<in> set psf. 0 \<le> v" and "r \<le> r'"
  shows "encircled_sum psf size_n r \<le> encircled_sum psf size_n r'"
  unfolding encircled_sum_eq
proof (intro sum_mono)
  fix i j assume "i \<in> {..<size_n}" "j \<in> {..<size_n}"
  then have "psf ! (i * size_n + j) \<in> set psf" using assms(1) by (simp add: cell_index)
  then have "0 \<le> psf ! (i * size_n + j)" using assms(2) by blast
  then show "(if px_dist size_n i j \<le> r then psf ! (i * size_n + j) else 0)
          \<le> (if px_dist size_n i j \<le> r' then psf ! (i * size_n + j) else 0)"
    using assms(3) by auto
qed

lemma encircled_sum_nonneg:
  assumes "length psf = size_n * size_n" and "\<forall>v \<in> set psf. 0 \<le> v"
  shows "0 \<le> encircled_sum psf size_n r"
  unfolding encircled_sum_eq
proof (intro sum_nonneg)
  fix i j assume "i \<in> {..<size_n}" "j \<in> {..<size_n}"
  then have "psf ! (i * size_n + j) \<in> set psf" using assms(1) by (simp add: cell_index)
  then have "0 \<le> psf ! (i * size_n + j)" using assms(2) by blast
  then show "0 \<le> (if px_dist size_n i j \<le> r then psf ! (i * size_n + j) else 0)" by simp
qed

lemma encircled_sum_all:
  assumes "length psf = size_n * size_n" and "real size_n * sqrt 2 / 2 \<le> r"
  shows "encircled_sum psf size_n r = sum_list psf"
proof -
  have "encircled_sum psf size_n r = (\<Sum>i<size_n. \<Sum>j<size_n. psf ! (i * size_n + j))"
    unfolding encircled_sum_eq
  proof (intro sum.cong refl)
    fix i j assume "i \<in> {..<size_n}" "j \<in> {..<size_n}"
    then have "i < size_n" "j < size_n" by simp_all
    then have "px_dist size_n i j \<le> real size_n * sqrt 2 / 2" by (rule px_dist_bound)
    then have "px_dist size_n i j \<le> r" using assms(2) by (rule order_trans)
    then show "(if px_dist size_n i j \<le> r then psf ! (i * size_n + j) else 0) = psf ! (i * size_n + j)"
      by simp
  qed
  also have "\<dots> = (\<Sum>k<size_n * size_n. psf ! k)" by (rule sum_rows)
  also have "\<dots> = sum_list psf" using assms(1) by (simp add: sum_list_nth)
  finally show ?thesis .
qed

lemma encircled_sum_le_total:
  assumes "length psf = size_n * size_n" and "\<forall>v \<in> set psf. 0 \<le> v"
  shows "encircled_sum psf size_n r \<le> sum_list psf"
proof -
  have "encircled_sum psf size_n r \<le> encircled_sum psf size_n (max r (real size_n * sqrt 2 / 2))"
    using assms by (intro encircled_sum_mono) simp_all
  also have "\<dots> = sum_list psf" using assms(1) by (intro encircled_sum_all) simp_all
  finally show ?thesis .
qed

lemma calculate_encircled_energy_eq:
  assumes "length psf = size_n * size_n" and "radii_count \<le> length radii" and "radii_count \<le> length energies"
  shows "calculate_encircled_energy psf size_n radii energies radii_count
         = map (\<lambda>radius. encircled_sum psf size_n radius / sum_list psf) (take radii_count radii)
           @ drop radii_count energies"
  unfolding calculate_encircled_energy_def Let_def total_eq
  using assms fold_update_map [of radii_count radii energies "\<lambda>radius. encircled_sum psf size_n radius / sum_list psf"]
  by (simp add: sum_list_nth)

text \<open>
  C8.  For every grid side and every array of \<open>size_n\<^sup>2\<close> non-negative intensities with
  positive total, and every strictly ascending list of radii, the energies written by
  \<^verbatim>\<open>calculate_encircled_energy\<close> are non-decreasing, lie in \<open>[0, 1]\<close>, and the last one is 1
  when the last radius is at least \<open>size_n * sqrt 2 / 2\<close>.  Distances are Euclidean on the
  integer offsets from \<open>(size_n div 2, size_n div 2)\<close>.
\<close>

theorem encircled_energy_properties:
  assumes "length psf = size_n * size_n" and "\<forall>v \<in> set psf. 0 \<le> v" and "0 < sum_list psf"
    and "radii_count \<le> length radii" and "radii_count \<le> length energies"
    and "sorted_wrt (<) (take radii_count radii)"
  shows "let out = calculate_encircled_energy psf size_n radii energies radii_count
         in (\<forall>a b. a \<le> b \<and> b < radii_count \<longrightarrow> out ! a \<le> out ! b)
          \<and> (\<forall>a < radii_count. 0 \<le> out ! a \<and> out ! a \<le> 1)
          \<and> (0 < radii_count \<and> real size_n * sqrt 2 / 2 \<le> radii ! (radii_count - 1)
               \<longrightarrow> out ! (radii_count - 1) = 1)"
proof -
  let ?E = "\<lambda>radius. encircled_sum psf size_n radius / sum_list psf"
  let ?out = "calculate_encircled_energy psf size_n radii energies radii_count"
  have out: "?out ! a = ?E (radii ! a)" if "a < radii_count" for a
    using that assms(4,5) by (simp add: calculate_encircled_energy_eq [OF assms(1,4,5)] nth_append)
  have mono: "?out ! a \<le> ?out ! b" if "a \<le> b" "b < radii_count" for a b
  proof -
    have "radii ! a \<le> radii ! b"
    proof (cases "a = b")
      case False
      then have "a < b" using that by simp
      then have "take radii_count radii ! a < take radii_count radii ! b"
        using assms(4) that by (intro sorted_wrt_nth_less [OF assms(6)]) simp_all
      then show ?thesis using that by simp
    qed simp
    then have "encircled_sum psf size_n (radii ! a) \<le> encircled_sum psf size_n (radii ! b)"
      using assms(1,2) by (intro encircled_sum_mono)
    then show ?thesis using that assms(3) by (simp add: out divide_right_mono)
  qed
  have range: "0 \<le> ?out ! a \<and> ?out ! a \<le> 1" if "a < radii_count" for a
    using that assms(3) encircled_sum_nonneg [OF assms(1,2), of "radii ! a"]
      encircled_sum_le_total [OF assms(1,2), of "radii ! a"]
    by (simp add: out)
  have last: "?out ! (radii_count - 1) = 1"
    if "0 < radii_count" "real size_n * sqrt 2 / 2 \<le> radii ! (radii_count - 1)"
    using that assms(3) encircled_sum_all [OF assms(1) that(2)] by (simp add: out)
  show ?thesis unfolding Let_def using mono range last by blast
qed

theorem encircled_energy_properties_witness:
  "calculate_encircled_energy [1, 0, 0, 1] 2 [0, 2] [9, 9] 2 ! 0
     \<le> calculate_encircled_energy [1, 0, 0, 1] 2 [0, 2] [9, 9] 2 ! 1
   \<and> 0 \<le> calculate_encircled_energy [1, 0, 0, 1] 2 [0, 2] [9, 9] 2 ! 0
   \<and> calculate_encircled_energy [1, 0, 0, 1] 2 [0, 2] [9, 9] 2 ! 1 = 1"
proof -
  define out where "out = calculate_encircled_energy [1, 0, 0, 1] 2 [0, 2] [9, 9] 2"
  have "sqrt 2 \<le> 2" by (rule real_le_lsqrt) simp_all
  then have r: "real 2 * sqrt 2 / 2 \<le> [0, 2] ! (2 - 1)" by simp
  have "let out = calculate_encircled_energy [1, 0, 0, 1] 2 [0, 2] [9, 9] 2
        in (\<forall>a b. a \<le> b \<and> b < 2 \<longrightarrow> out ! a \<le> out ! b)
         \<and> (\<forall>a < 2. 0 \<le> out ! a \<and> out ! a \<le> 1)
         \<and> (0 < (2::nat) \<and> real 2 * sqrt 2 / 2 \<le> [0, 2] ! (2 - 1) \<longrightarrow> out ! (2 - 1) = 1)"
    by (rule encircled_energy_properties) simp_all
  then have all: "(\<forall>a b. a \<le> b \<and> b < 2 \<longrightarrow> out ! a \<le> out ! b)
         \<and> (\<forall>a < 2. 0 \<le> out ! a \<and> out ! a \<le> 1)
         \<and> (0 < (2::nat) \<and> real 2 * sqrt 2 / 2 \<le> [0, 2] ! (2 - 1) \<longrightarrow> out ! (2 - 1) = 1)"
    unfolding Let_def out_def .
  have "(0::nat) \<le> 1 \<and> (1::nat) < 2" by simp
  with all have "out ! 0 \<le> out ! 1" by blast
  moreover have "(0::nat) < 2" by simp
  with all have "0 \<le> out ! 0" by blast
  moreover have "(2::nat) - 1 = 1" by simp
  with all r have "out ! 1 = 1" by (metis pos2)
  ultimately show ?thesis unfolding out_def by blast
qed


section \<open>Twiddle table entries\<close>

lemma c_trunc_unique: "real_of_int k \<le> x \<Longrightarrow> x < real_of_int k + 1 \<Longrightarrow> 0 \<le> x \<Longrightarrow> c_trunc x = k"
  unfolding c_trunc_def by (simp add: floor_unique)

lemma c_fmod_small_neg: "- y < x \<Longrightarrow> x < 0 \<Longrightarrow> c_fmod x y = x"
proof -
  assume a: "- y < x" "x < 0"
  then have y: "0 < y" by simp
  have "- 1 < x / y" using a y by (simp add: pos_less_divide_eq)
  moreover have "x / y < 0" using a y by (simp add: divide_neg_pos)
  ultimately have "\<lceil>x / y\<rceil> = 0" by (simp add: ceiling_unique)
  then show ?thesis using \<open>x / y < 0\<close> by (simp add: c_fmod_def c_trunc_def)
qed

lemma coarse_tabs:
  "trig_table_size coarse_trig_state = 4"
  "sin_table coarse_trig_state = Some [0, 1, 0, - 1]"
  "cos_table coarse_trig_state = Some [1, 0, - 1, 0]"
proof -
  have u: "[0..<4] = [0, 1, 2, 3]" by (simp add: upt_rec)
  have i: "int32 4 = 4" by (simp add: int32_def)
  have e: "pi * 3 / 2 = 3 / 2 * pi" by simp
  have s: "sin (pi * 3 / 2) = - 1" "cos (pi * 3 / 2) = 0"
    unfolding e by (rule sin_3over2_pi, rule cos_3over2_pi)
  show "trig_table_size coarse_trig_state = 4"
    by (simp add: coarse_trig_state_def init_fast_trig_tables_def i)
  show "sin_table coarse_trig_state = Some [0, 1, 0, - 1]"
    using s by (simp add: coarse_trig_state_def init_fast_trig_tables_def i u)
  show "cos_table coarse_trig_state = Some [1, 0, - 1, 0]"
    using s by (simp add: coarse_trig_state_def init_fast_trig_tables_def i u)
qed

text \<open>
  The lookup for the angle \<open>- 2 * pi / 8\<close> in the table of four samples: the exact value of
  the index expression is \<open>7 / 2\<close>, and every double within \<open>1 / 2\<close> of it has the integer
  part 3.
\<close>

lemma coarse_index_any_rounding:
  assumes "\<bar>rq (- 2 * pi * 1 / 8) (7 / 2) - 7 / 2\<bar> < 1 / 2"
  shows "trig_index rq coarse_trig_state (- 2 * pi * 1 / 8) = 3"
proof -
  have f: "c_fmod (- 2 * pi * 1 / 8) (2 * pi) = - 2 * pi * 1 / 8"
    by (rule c_fmod_small_neg) (use pi_gt_zero in simp_all)
  have e: "(- 2 * pi * 1 / 8 + 2 * pi) / (2 * pi) * real_of_int 4 = 7 / 2"
    using pi_gt_zero by (simp add: field_simps)
  have b: "3 \<le> rq (- 2 * pi * 1 / 8) (7 / 2)" "rq (- 2 * pi * 1 / 8) (7 / 2) < 4"
    using assms unfolding abs_less_iff by linarith+
  have "c_trunc (rq (- 2 * pi * 1 / 8) (7 / 2)) = 3"
    by (rule c_trunc_unique) (use b in simp_all)
  then show ?thesis
    unfolding trig_index_def Let_def f coarse_tabs e using pi_gt_zero by simp
qed

lemma coarse_index: "trig_index exact_quotient coarse_trig_state (- 2 * pi * 1 / 8) = 3"
  by (rule coarse_index_any_rounding) (simp add: exact_quotient_def)

lemma init_twiddle_table_nth:
  "i < max_size \<Longrightarrow>
   the (twiddle_table (init_twiddle_table rq st max_size)) ! i
     = Complex (the_finite (fast_cos rq st (Finite (- 2 * pi * real i / real max_size))))
               (the_finite (fast_sin rq st (Finite (- 2 * pi * real i / real max_size))))"
  by (simp add: init_twiddle_table_def Let_def)

lemma init_twiddle_table_exact:
  assumes "sin_table st = None" and "cos_table st = None" and "i < max_size"
  shows "the (twiddle_table (init_twiddle_table rq st max_size)) ! i
         = Complex (cos (- 2 * pi * real i / real max_size)) (sin (- 2 * pi * real i / real max_size))"
  using assms by (simp add: init_twiddle_table_nth fast_cos_def fast_sin_def)

lemma fft_1d_builds_table:
  "twiddle_table st = None \<Longrightarrow> 1 < n \<Longrightarrow> fst (fft_1d rq st data n inverse_flag) = init_twiddle_table rq st n"
  by (simp add: fft_1d_def Let_def)

lemma coarse_twiddle_entry:
  assumes "trig_index rq coarse_trig_state (- 2 * pi * 1 / 8) = 3"
  shows "twiddle_table_size (fst (fft_1d rq coarse_trig_state data 8 0)) = 8"
    and "the (twiddle_table (fst (fft_1d rq coarse_trig_state data 8 0))) ! 1 = Complex 0 (- 1)"
proof -
  have none: "twiddle_table coarse_trig_state = None"
    by (simp add: coarse_trig_state_def init_fast_trig_tables_def initial_state_def Let_def)
  have t: "fst (fft_1d rq coarse_trig_state data 8 0) = init_twiddle_table rq coarse_trig_state 8"
    using none by (simp add: fft_1d_builds_table)
  show "twiddle_table_size (fst (fft_1d rq coarse_trig_state data 8 0)) = 8"
    unfolding t by (simp add: init_twiddle_table_def)
  show "the (twiddle_table (fst (fft_1d rq coarse_trig_state data 8 0))) ! 1 = Complex 0 (- 1)"
    unfolding t using assms by (simp add: init_twiddle_table_nth fast_cos_def fast_sin_def coarse_tabs)
qed

text \<open>The entry does not depend on how the index expression is rounded, as long as the
  double computed for it is within \<open>1 / 2\<close> of \<open>7 / 2\<close>.\<close>

lemma twiddle_entry_any_rounding:
  assumes "\<bar>rq (- 2 * pi * 1 / 8) (7 / 2) - 7 / 2\<bar> < 1 / 2"
  shows "the (twiddle_table (fst (fft_1d rq (init_fast_trig_tables initial_state 1) data 8 0))) ! 1
         = Complex 0 (- 1)"
  unfolding coarse_trig_state_def [symmetric]
  using coarse_index_any_rounding [of rq] assms by (intro coarse_twiddle_entry(2)) simp

text \<open>
  C2.  The claim is that every entry \<open>i\<close> of a twiddle table of length \<open>M\<close> is exactly
  \<open>(cos (-2 * pi * i / M), sin (-2 * pi * i / M))\<close>, in every state of the trigonometric
  tables.  \<^verbatim>\<open>init_twiddle_table\<close> computes the entries with \<^verbatim>\<open>fast_cos\<close> and \<^verbatim>\<open>fast_sin\<close>.
  Without trigonometric tables these are the library functions and the entries are exact
  (lemma \<open>init_twiddle_table_exact\<close>).  With a table they are lookups: after
  \<^verbatim>\<open>init_fast_trig_tables(1)\<close> (four samples) an FFT of length 8 builds a twiddle table whose
  entry 1 is \<open>(0, -1)\<close>, where the claim requires \<open>(sqrt 2 / 2, - sqrt 2 / 2)\<close>.
\<close>

theorem twiddle_table_from_coarse_trig_table:
  "twiddle_table_size (fst (fft_1d exact_quotient (init_fast_trig_tables initial_state 1) data 8 0)) = 8
   \<and> the (twiddle_table (fst (fft_1d exact_quotient (init_fast_trig_tables initial_state 1) data 8 0))) ! 1
       = Complex 0 (- 1)
   \<and> Complex (cos (- 2 * pi * 1 / 8)) (sin (- 2 * pi * 1 / 8)) = Complex (sqrt 2 / 2) (- sqrt 2 / 2)"
proof -
  have "cos (- 2 * pi * 1 / 8) = sqrt 2 / 2" "sin (- 2 * pi * 1 / 8) = - sqrt 2 / 2"
    using cos_45 sin_45 by simp_all
  then show ?thesis
    unfolding coarse_trig_state_def [symmetric]
    using coarse_twiddle_entry [OF coarse_index] by simp
qed

section \<open>FFT round trip\<close>

lemma bit_reverse_permute_4: "bit_reverse_permute 4 [a, b, c, d] = [a, c, b, d]"
  by (simp add: bit_reverse_permute_def bit_reverse_step_def bit_reverse_carry.simps
      Let_def upt_rec drop_bit_eq_div)

lemma complex_mult_components:
  "Complex (Re d * Re w - Im d * Im w) (Re d * Im w + Im d * Re w) = d * w"
  by (simp add: complex_eq_iff)

lemma complex_add_components: "Complex (Re u + Re v) (Im u + Im v) = u + v"
  by (simp add: complex_eq_iff)

lemma complex_diff_components: "Complex (Re u - Re v) (Im u - Im v) = u - v"
  by (simp add: complex_eq_iff)

lemma cos_sin_3pi4: "cos (3 * pi / 4) = - (sqrt 2 / 2)" "sin (3 * pi / 4) = sqrt 2 / 2"
proof -
  have e: "3 * pi / 4 = pi - pi / 4" by simp
  show "cos (3 * pi / 4) = - (sqrt 2 / 2)" unfolding e by (simp only: cos_pi_minus cos_45)
  show "sin (3 * pi / 4) = sqrt 2 / 2" unfolding e by (simp only: sin_pi_minus sin_45)
qed

lemma butterfly_complex:
  "butterfly tw n inverse_flag len step i j data =
     (let idx = (if inverse_flag \<noteq> 0 then n - j * step else j * step);
          w = tw ! (if idx \<ge> n then idx - n else idx)
      in data[i + j := data ! (i + j) + data ! (i + j + len div 2) * w,
              i + j + len div 2 := data ! (i + j) - data ! (i + j + len div 2) * w])"
  unfolding butterfly_def Let_def complex_mult_components complex_add_components complex_diff_components
  by simp

lemma fft_stages_4_forward:
  "fft_stages tw 4 0 2 [a, b, c, d]
     = [a + b * tw ! 0 + (c + d * tw ! 0) * tw ! 0, a - b * tw ! 0 + (c - d * tw ! 0) * tw ! 1,
        a + b * tw ! 0 - (c + d * tw ! 0) * tw ! 0, a - b * tw ! 0 - (c - d * tw ! 0) * tw ! 1]"
  by (simp add: fft_stages.simps fft_groups.simps butterfly_complex Let_def push_bit_eq_mult upt_rec)

lemma fft_stages_4_inverse:
  "fft_stages tw 4 1 2 [a, b, c, d]
     = [a + b * tw ! 0 + (c + d * tw ! 0) * tw ! 0, a - b * tw ! 0 + (c - d * tw ! 0) * tw ! 3,
        a + b * tw ! 0 - (c + d * tw ! 0) * tw ! 0, a - b * tw ! 0 - (c - d * tw ! 0) * tw ! 3]"
  by (simp add: fft_stages.simps fft_groups.simps butterfly_complex Let_def push_bit_eq_mult upt_rec)

lemma after_fft8_eq: "state_after_fft8 rq = init_twiddle_table rq initial_state 8"
  by (simp add: state_after_fft8_def fft_1d_builds_table initial_state_def)

lemma after_fft8_size: "twiddle_table (state_after_fft8 rq) \<noteq> None" "twiddle_table_size (state_after_fft8 rq) = 8"
  by (simp_all add: after_fft8_eq init_twiddle_table_def)

lemma after_fft8_entries:
  "the (twiddle_table (state_after_fft8 rq)) ! 0 = 1"
  "the (twiddle_table (state_after_fft8 rq)) ! 1 = Complex (sqrt 2 / 2) (- sqrt 2 / 2)"
  "the (twiddle_table (state_after_fft8 rq)) ! 3 = Complex (- sqrt 2 / 2) (- sqrt 2 / 2)"
proof -
  have n: "sin_table initial_state = None" "cos_table initial_state = None"
    by (simp_all add: initial_state_def)
  show "the (twiddle_table (state_after_fft8 rq)) ! 0 = 1"
    unfolding after_fft8_eq by (subst init_twiddle_table_exact [OF n]) (simp_all add: complex_eq_iff)
  show "the (twiddle_table (state_after_fft8 rq)) ! 1 = Complex (sqrt 2 / 2) (- sqrt 2 / 2)"
    unfolding after_fft8_eq by (subst init_twiddle_table_exact [OF n]) (simp_all add: cos_45 sin_45)
  show "the (twiddle_table (state_after_fft8 rq)) ! 3 = Complex (- sqrt 2 / 2) (- sqrt 2 / 2)"
    unfolding after_fft8_eq by (subst init_twiddle_table_exact [OF n]) (simp_all add: cos_sin_3pi4)
qed

lemma after_fft8_entry_Suc: "the (twiddle_table (state_after_fft8 rq)) ! Suc 0 = Complex (sqrt 2 / 2) (- sqrt 2 / 2)"
  using after_fft8_entries(2) by simp

lemma stale_table_forward: "fft_1d rq (state_after_fft8 rq) [0, 1, 0, 0] 4 0 = ((state_after_fft8 rq), [1, Complex (sqrt 2 / 2) (- sqrt 2 / 2), - 1, Complex (- sqrt 2 / 2) (sqrt 2 / 2)])"
  by (simp add: fft_1d_def after_fft8_size Let_def bit_reverse_permute_4 fft_stages_4_forward after_fft8_entries after_fft8_entry_Suc complex_eq_iff)

lemma stale_table_inverse: "fft_1d rq (state_after_fft8 rq) [1, Complex (sqrt 2 / 2) (- sqrt 2 / 2), - 1, Complex (- sqrt 2 / 2) (sqrt 2 / 2)] 4 1 = ((state_after_fft8 rq), [0, 0, 0, 1])"
  by (simp add: fft_1d_def after_fft8_size Let_def bit_reverse_permute_4 fft_stages_4_inverse after_fft8_entries after_fft8_entry_Suc complex_eq_iff)


text \<open>
  With a table built for the same length the example below comes back: the transform
  itself is modelled as it should be.
\<close>

lemma fft_roundtrip_fresh_table_example:
  "snd (fft_1d rq (fst (fft_1d rq initial_state [0, 1, 0, 0] 4 0)) (snd (fft_1d rq initial_state [0, 1, 0, 0] 4 0)) 4 1)
     = [0, 1, 0, 0]"
proof -
  have n: "sin_table initial_state = None" "cos_table initial_state = None" "twiddle_table initial_state = None"
    by (simp_all add: initial_state_def)
  have e: "3 * pi / 2 = 3 / 2 * pi" by simp
  have v: "cos (3 * pi / 2) = 0" "sin (3 * pi / 2) = - 1"
    unfolding e by (rule cos_3over2_pi, rule sin_3over2_pi)
  have t0: "the (twiddle_table (init_twiddle_table rq initial_state 4)) ! 0 = 1"
    by (subst init_twiddle_table_exact [OF n(1,2)]) (simp_all add: complex_eq_iff)
  have t1: "the (twiddle_table (init_twiddle_table rq initial_state 4)) ! Suc 0 = Complex 0 (- 1)"
    by (subst init_twiddle_table_exact [OF n(1,2)]) (simp_all add: complex_eq_iff)
  have t3: "the (twiddle_table (init_twiddle_table rq initial_state 4)) ! 3 = Complex 0 1"
    by (subst init_twiddle_table_exact [OF n(1,2)]) (simp_all add: complex_eq_iff v)
  note t = t0 t1 t3
  have s: "twiddle_table (init_twiddle_table rq initial_state 4) \<noteq> None"
    "twiddle_table_size (init_twiddle_table rq initial_state 4) = 4"
    by (simp_all add: init_twiddle_table_def)
  have f: "fft_1d rq initial_state [0, 1, 0, 0] 4 0
           = (init_twiddle_table rq initial_state 4, [1, Complex 0 (- 1), - 1, Complex 0 1])"
    by (simp add: fft_1d_def n Let_def bit_reverse_permute_4 fft_stages_4_forward t complex_eq_iff)
  show ?thesis
    unfolding f fst_conv snd_conv
    by (simp add: fft_1d_def s Let_def bit_reverse_permute_4 fft_stages_4_inverse t complex_eq_iff)
qed

text \<open>
  C1.  The claim is that a forward FFT followed by the inverse FFT of the same size gives
  the input back in every reachable state of the twiddle table, also when the table was
  grown to a larger size before.  \<^verbatim>\<open>fft_1d\<close> keeps a table that is longer than \<open>n\<close> and still
  reads it at \<^verbatim>\<open>j * (n / len)\<close>, as if it had \<open>n\<close> entries.  After one FFT of length 8 in a
  fresh process, the round trip of length 4 on \<open>[0, 1, 0, 0]\<close> returns \<open>[0, 0, 0, 1]\<close>.
\<close>

theorem fft_roundtrip_after_larger_table:
  "twiddle_table_size (fst (fft_1d rq initial_state (replicate 8 0) 8 0)) = 8
   \<and> snd (fft_1d rq (fst (fft_1d rq (fst (fft_1d rq initial_state (replicate 8 0) 8 0)) [0, 1, 0, 0] 4 0))
            (snd (fft_1d rq (fst (fft_1d rq initial_state (replicate 8 0) 8 0)) [0, 1, 0, 0] 4 0)) 4 1)
       = [0, 0, 0, 1]"
  unfolding state_after_fft8_def [symmetric] stale_table_forward fst_conv snd_conv stale_table_inverse
  by (simp add: after_fft8_size)

section \<open>Pupil construction of the grid form\<close>











text \<open>The phase of a cell where neither the phase constant nor the product leaves the
  range of the doubles: \<open>k * opd\<close> with \<open>k = - 2 * pi / wavelength\<close>.\<close>

lemma grid_phase_finite:
  assumes "wavelength \<noteq> 0" and "dbl_in_range (- 2 * pi / wavelength)"
    and "dbl_in_range (- 2 * pi / wavelength * opd)"
  shows "dmul (ddiv (Finite (- 2 * pi)) (Finite wavelength)) (Finite opd)
         = Finite (- 2 * pi / wavelength * opd)"
  using assms by (simp add: dbl_result_finite)







section \<open>Transposition\<close>

lemma cell_decompose: "(k = jj * H + ii) = (k div H = jj \<and> k mod H = ii)" if "ii < H" for k :: nat
proof
  assume "k = jj * H + ii"
  then show "k div H = jj \<and> k mod H = ii" using that by simp
next
  assume "k div H = jj \<and> k mod H = ii"
  then have "jj * H + ii = k div H * H + k mod H" by simp
  also have "\<dots> = k" by (rule div_mult_mod_eq)
  finally show "k = jj * H + ii" by simp
qed

lemma transpose_inner_length:
  "length (fold (\<lambda>jj d. d[jj * H + ii := f jj]) js d) = length d"
  by (induction js arbitrary: d) simp_all

lemma transpose_inner_nth:
  assumes "ii < H" and "k < length d"
  shows "fold (\<lambda>jj d. d[jj * H + ii := f jj]) [j..<mj] d ! k
         = (if k mod H = ii \<and> j \<le> k div H \<and> k div H < mj then f (k div H) else d ! k)"
proof (induction mj)
  case 0
  then show ?case by simp
next
  case (Suc mj)
  show ?case
  proof (cases "j \<le> mj")
    case True
    then have "fold (\<lambda>jj d. d[jj * H + ii := f jj]) [j..<Suc mj] d
               = (fold (\<lambda>jj d. d[jj * H + ii := f jj]) [j..<mj] d)[mj * H + ii := f mj]"
      by simp
    then show ?thesis
      using Suc assms True cell_decompose [OF assms(1), of k mj]
      by (auto simp: nth_list_update transpose_inner_length)
  next
    case False
    then show ?thesis by auto
  qed
qed

lemma transpose_block_length:
  "length (transpose_block src W H i mi j mj dst) = length dst"
proof -
  have "length (fold (\<lambda>ii d. fold (\<lambda>jj d. d[jj * H + ii := src ! (ii * W + jj)]) [j..<mj] d) is d) = length d"
    for "is" d
    by (induction "is" arbitrary: d) (simp_all add: transpose_inner_length)
  then show ?thesis by (simp add: transpose_block_def)
qed

lemma transpose_block_nth:
  assumes "mi \<le> H" and "k < length dst"
  shows "transpose_block src W H i mi j mj dst ! k
         = (if i \<le> k mod H \<and> k mod H < mi \<and> j \<le> k div H \<and> k div H < mj
            then src ! (k mod H * W + k div H) else dst ! k)"
  using assms(1)
proof (induction mi)
  case 0
  then show ?case by (simp add: transpose_block_def)
next
  case (Suc mi)
  then have mi: "mi < H" "mi \<le> H" by simp_all
  show ?case
  proof (cases "i \<le> mi")
    case True
    let ?d = "transpose_block src W H i mi j mj dst"
    have "transpose_block src W H i (Suc mi) j mj dst
          = fold (\<lambda>jj d. d[jj * H + mi := src ! (mi * W + jj)]) [j..<mj] ?d"
      using True by (simp add: transpose_block_def)
    then show ?thesis
      using Suc.IH [OF mi(2)] True assms(2)
        transpose_inner_nth [OF mi(1), of k ?d "\<lambda>jj. src ! (mi * W + jj)" j mj]
      by (auto simp: transpose_block_length)
  next
    case False
    then show ?thesis by (auto simp: transpose_block_def)
  qed
qed

lemma transpose_cols_length:
  "length (transpose_cols src W H BS i j dst) = length dst"
proof (induction src W H BS i j dst rule: transpose_cols.induct)
  case (1 src width height BLOCK_SIZE i j dst)
  show ?case
  proof (cases "j < width \<and> 0 < BLOCK_SIZE")
    case True
    then show ?thesis
      using 1 [OF True refl refl]
      by (subst transpose_cols.simps) (simp add: Let_def transpose_block_length)
  next
    case False
    show ?thesis by (subst transpose_cols.simps) (simp only: False if_False)
  qed
qed

lemma transpose_cols_nth:
  assumes "k < length dst"
  shows "transpose_cols src W H BS i j dst ! k
         = (if 0 < BS \<and> i \<le> k mod H \<and> k mod H < min (i + BS) H \<and> j \<le> k div H \<and> k div H < W
            then src ! (k mod H * W + k div H) else dst ! k)"
  using assms
proof (induction src W H BS i j dst rule: transpose_cols.induct)
  case (1 src width height BLOCK_SIZE i j dst)
  show ?case
  proof (cases "j < width \<and> 0 < BLOCK_SIZE")
    case True
    let ?mi = "if i + BLOCK_SIZE < height then i + BLOCK_SIZE else height"
    let ?mj = "if j + BLOCK_SIZE < width then j + BLOCK_SIZE else width"
    let ?b = "transpose_block src width height i ?mi j ?mj dst"
    have mi: "?mi \<le> height" "?mi = min (i + BLOCK_SIZE) height" by auto
    have step: "transpose_cols src width height BLOCK_SIZE i j dst
                = transpose_cols src width height BLOCK_SIZE i (j + BLOCK_SIZE) ?b"
      using True by (subst transpose_cols.simps) (simp add: Let_def)
    have kb: "k < length ?b" using "1.prems" by (simp add: transpose_block_length)
    have ih: "transpose_cols src width height BLOCK_SIZE i (j + BLOCK_SIZE) ?b ! k
          = (if 0 < BLOCK_SIZE \<and> i \<le> k mod height \<and> k mod height < min (i + BLOCK_SIZE) height
                \<and> j + BLOCK_SIZE \<le> k div height \<and> k div height < width
             then src ! (k mod height * width + k div height) else ?b ! k)"
      using "1.IH" [OF True refl refl kb] .
    have blk: "?b ! k = (if i \<le> k mod height \<and> k mod height < ?mi \<and> j \<le> k div height \<and> k div height < ?mj
            then src ! (k mod height * width + k div height) else dst ! k)"
      using transpose_block_nth [OF mi(1) "1.prems"] .
    show ?thesis
      unfolding step ih blk using True by (auto simp: min_def)
  next
    case False
    have "transpose_cols src width height BLOCK_SIZE i j dst = dst"
      by (subst transpose_cols.simps) (simp only: False if_False)
    then show ?thesis using False by auto
  qed
qed

lemma transpose_rows_length:
  "length (transpose_rows src W H BS i dst) = length dst"
proof (induction src W H BS i dst rule: transpose_rows.induct)
  case (1 src width height BLOCK_SIZE i dst)
  show ?case
  proof (cases "i < height \<and> 0 < BLOCK_SIZE")
    case True
    then show ?thesis
      using 1 [OF True]
      by (subst transpose_rows.simps) (simp add: transpose_cols_length)
  next
    case False
    show ?thesis by (subst transpose_rows.simps) (simp only: False if_False)
  qed
qed

lemma transpose_rows_nth:
  assumes "k < length dst"
  shows "transpose_rows src W H BS i dst ! k
         = (if 0 < BS \<and> i \<le> k mod H \<and> k mod H < H \<and> k div H < W
            then src ! (k mod H * W + k div H) else dst ! k)"
  using assms
proof (induction src W H BS i dst rule: transpose_rows.induct)
  case (1 src width height BLOCK_SIZE i dst)
  show ?case
  proof (cases "i < height \<and> 0 < BLOCK_SIZE")
    case True
    let ?c = "transpose_cols src width height BLOCK_SIZE i 0 dst"
    have step: "transpose_rows src width height BLOCK_SIZE i dst
                = transpose_rows src width height BLOCK_SIZE (i + BLOCK_SIZE) ?c"
      using True by (subst transpose_rows.simps) simp
    have kc: "k < length ?c" using "1.prems" by (simp add: transpose_cols_length)
    have ih: "transpose_rows src width height BLOCK_SIZE (i + BLOCK_SIZE) ?c ! k
          = (if 0 < BLOCK_SIZE \<and> i + BLOCK_SIZE \<le> k mod height \<and> k mod height < height \<and> k div height < width
             then src ! (k mod height * width + k div height) else ?c ! k)"
      using "1.IH" [OF True kc] .
    show ?thesis
      unfolding step ih transpose_cols_nth [OF "1.prems"] using True by (auto simp: min_def)
  next
    case False
    have "transpose_rows src width height BLOCK_SIZE i dst = dst"
      by (subst transpose_rows.simps) (simp only: False if_False)
    then show ?thesis using False by auto
  qed
qed

lemma transpose_complex_length:
  "length (transpose_complex src dst W H) = length dst"
  by (simp add: transpose_complex_def transpose_rows_length)

lemma transpose_complex_nth:
  assumes "k < W * H" and "W * H \<le> length dst"
  shows "transpose_complex src dst W H ! k = src ! (k mod H * W + k div H)"
proof -
  have H: "0 < H" using assms(1) by (cases H) simp_all
  have "k div H < W" using assms(1) by (rule less_mult_imp_div_less)
  moreover have "k mod H < H" using H by simp
  moreover have "k < length dst" using assms by simp
  ultimately show ?thesis
    by (simp add: transpose_complex_def transpose_rows_nth)
qed

section \<open>Transforms of the zero field\<close>

lemma xor_bound: "a XOR b < 2 ^ n" if "a < 2 ^ n" "b < 2 ^ n" for a b :: nat
proof -
  have "take_bit n (a XOR b) = take_bit n a XOR take_bit n b" by (simp add: take_bit_xor)
  also have "\<dots> = a XOR b" using that by (simp add: take_bit_nat_eq_self)
  finally show ?thesis by (metis take_bit_nat_less_exp)
qed

lemma xor_clear_top: "j XOR 2 ^ e < 2 ^ e" if "j < 2 ^ Suc e" "j AND 2 ^ e \<noteq> 0" for j :: nat
proof -
  have b: "bit j e" using that(2) by (simp add: and_exp_eq_0_iff_not_bit)
  have "take_bit e (j XOR 2 ^ e) = j XOR 2 ^ e"
  proof (rule bit_eqI)
    fix n
    have "\<not> bit j n" if "e < n"
    proof -
      have "j < 2 ^ n" using \<open>j < 2 ^ Suc e\<close> that
        by (meson Suc_leI less_le_trans one_le_numeral power_increasing)
      then show ?thesis by (simp add: bit_iff_odd)
    qed
    then show "bit (take_bit e (j XOR 2 ^ e)) n = bit (j XOR 2 ^ e) n"
      using b by (cases "n < e"; cases "n = e") (auto simp: bit_simps)
  qed
  then show ?thesis by (metis take_bit_nat_less_exp)
qed

lemma bit_reverse_carry_bound:
  "j < 2 ^ Suc e \<Longrightarrow> fst (bit_reverse_carry j (2 ^ e)) XOR snd (bit_reverse_carry j (2 ^ e)) < 2 ^ Suc e"
proof (induction e arbitrary: j)
  case 0
  show ?case
  proof (cases "j AND 1 \<noteq> 0")
    case True
    then have "j = 1" using 0 by (cases "j = 0") simp_all
    then show ?thesis
      by (simp add: bit_reverse_carry.simps [of "Suc 0" "Suc 0"] bit_reverse_carry.simps [of 0 0] drop_bit_eq_div)
  next
    case False
    then have "bit_reverse_carry j (2 ^ 0) = (j, 1)" by (subst bit_reverse_carry.simps) simp
    then show ?thesis using 0 xor_bound [of j "Suc 0" 1] by simp
  qed
next
  case (Suc e)
  show ?case
  proof (cases "j AND 2 ^ Suc e \<noteq> 0")
    case True
    have lt: "j XOR 2 ^ Suc e < 2 ^ Suc e" using Suc.prems True by (rule xor_clear_top)
    have "bit_reverse_carry j (2 ^ Suc e) = bit_reverse_carry (j XOR 2 ^ Suc e) (2 ^ e)"
      using True by (subst bit_reverse_carry.simps) (simp add: drop_bit_eq_div)
    then show ?thesis using Suc.IH [OF lt] by simp
  next
    case False
    then have "bit_reverse_carry j (2 ^ Suc e) = (j, 2 ^ Suc e)"
      by (subst bit_reverse_carry.simps) simp
    then show ?thesis using Suc.prems xor_bound [of j "Suc (Suc e)" "2 ^ Suc e"] by simp
  qed
qed

lemma zero_upto_update: "zero_upto n data \<Longrightarrow> a < n \<Longrightarrow> data[a := 0] = data"
  by (metis list_update_id zero_upto_def)

lemma fold_fixed: "(\<And>x. x \<in> set xs \<Longrightarrow> f x s = s) \<Longrightarrow> fold f xs s = s"
  by (induction xs) simp_all

lemma bit_reverse_step_zero:
  assumes "zero_upto (2 ^ Suc e) data" and "j < 2 ^ Suc e" and "i < 2 ^ Suc e"
  shows "snd (bit_reverse_step (2 ^ Suc e) i (j, data)) = data"
    and "fst (bit_reverse_step (2 ^ Suc e) i (j, data)) < 2 ^ Suc e"
proof -
  let ?j = "fst (bit_reverse_carry j (2 ^ e)) XOR snd (bit_reverse_carry j (2 ^ e))"
  have d: "drop_bit 1 (2 ^ Suc e :: nat) = 2 ^ e" by (simp add: drop_bit_eq_div)
  have j: "?j < 2 ^ Suc e" using assms(2) by (rule bit_reverse_carry_bound)
  have "data ! ?j = 0" "data ! i = 0" using assms(1,3) j by (simp_all add: zero_upto_def)
  moreover have "data[i := 0, ?j := 0] = data"
    using assms(1,3) j by (simp add: zero_upto_update)
  ultimately show "snd (bit_reverse_step (2 ^ Suc e) i (j, data)) = data"
    unfolding bit_reverse_step_def Let_def d fst_conv snd_conv by simp
  show "fst (bit_reverse_step (2 ^ Suc e) i (j, data)) < 2 ^ Suc e"
    unfolding bit_reverse_step_def Let_def d fst_conv snd_conv using j by simp
qed

lemma bit_reverse_permute_zero:
  assumes "zero_upto (2 ^ k) data"
  shows "bit_reverse_permute (2 ^ k) data = data"
proof (cases k)
  case 0
  then show ?thesis by (simp add: bit_reverse_permute_def)
next
  case (Suc e)
  have inv: "snd (fold (bit_reverse_step (2 ^ Suc e)) is (j, data)) = data"
    if "j < 2 ^ Suc e" "\<forall>i \<in> set is. i < 2 ^ Suc e" for "is" j
    using that
  proof (induction "is" arbitrary: j)
    case Nil
    then show ?case by simp
  next
    case (Cons i "is")
    have z: "zero_upto (2 ^ Suc e) data" using assms Suc by simp
    have i: "i < 2 ^ Suc e" using Cons.prems(2) by simp
    note s = bit_reverse_step_zero [OF z Cons.prems(1) i]
    have "bit_reverse_step (2 ^ Suc e) i (j, data)
          = (fst (bit_reverse_step (2 ^ Suc e) i (j, data)), data)"
      using s(1) by (metis prod.collapse)
    then show ?case using Cons.IH [OF s(2)] Cons.prems(2) by simp
  qed
  show ?thesis
    unfolding bit_reverse_permute_def Suc by (rule inv) simp_all
qed

lemma butterfly_zero:
  assumes "zero_upto n data" and "i + j + len div 2 < n"
  shows "butterfly tw n inverse_flag len step i j data = data"
proof -
  have "data ! (i + j) = 0" "data ! (i + j + len div 2) = 0"
    using assms by (simp_all add: zero_upto_def)
  moreover have "data[i + j := 0, i + j + len div 2 := 0] = data"
    using assms by (simp add: zero_upto_update)
  ultimately show ?thesis by (simp add: butterfly_def Let_def zero_complex.code)
qed

lemma fft_groups_zero:
  assumes "zero_upto n data" and "len dvd n" and "len dvd i"
  shows "fft_groups tw n inverse_flag len i data = data"
  using assms
proof (induction tw n inverse_flag len i data rule: fft_groups.induct)
  case (1 tw n inverse_flag len i data)
  show ?case
  proof (cases "i < n \<and> 0 < len")
    case True
    obtain a where a: "i = len * a" using "1.prems"(3) by (rule dvdE)
    obtain b where b: "n = len * b" using "1.prems"(2) by (rule dvdE)
    note ab = a b
    then have "a < b" using True by simp
    then have "len * (a + 1) \<le> len * b" by (intro mult_le_mono2) simp
    then have le: "i + len \<le> n" using ab by simp
    have "butterfly tw n inverse_flag len (n div len) i j data = data" if "j \<in> set [0..<len div 2]" for j
    proof -
      have "j < len div 2" using that by simp
      then have "j + len div 2 < len" by linarith
      then show ?thesis using le by (intro butterfly_zero "1.prems"(1)) simp
    qed
    then have f: "fold (butterfly tw n inverse_flag len (n div len) i) [0..<len div 2] data = data"
      by (rule fold_fixed)
    have "len dvd i + len" using "1.prems"(3) by simp
    then show ?thesis
      using "1.IH" [OF True] "1.prems"(1,2) True
      by (subst fft_groups.simps) (simp add: f)
  next
    case False
    show ?thesis by (subst fft_groups.simps) (simp only: False if_False)
  qed
qed

lemma fft_stages_zero:
  assumes "zero_upto (2 ^ k) data"
  shows "fft_stages tw (2 ^ k) inverse_flag (2 ^ e) data = data"
  using assms
proof (induction "Suc k - e" arbitrary: e)
  case 0
  then have "\<not> (2 ^ e \<le> (2::nat) ^ k \<and> 0 < (2::nat) ^ e)" by simp
  then show ?case by (subst fft_stages.simps) (simp only: if_False)
next
  case (Suc m)
  then have ek: "e \<le> k" by simp
  then have c: "2 ^ e \<le> (2::nat) ^ k \<and> 0 < (2::nat) ^ e" by simp
  have dvd: "(2::nat) ^ e dvd 2 ^ k" using ek by (rule le_imp_power_dvd)
  have g: "fft_groups tw (2 ^ k) inverse_flag (2 ^ e) 0 data = data"
    using Suc.prems dvd by (rule fft_groups_zero) simp
  have m: "m = Suc k - Suc e" using Suc.hyps(2) by simp
  have "fft_stages tw (2 ^ k) inverse_flag (2 ^ e) data
        = fft_stages tw (2 ^ k) inverse_flag (2 ^ Suc e) data"
    by (subst fft_stages.simps) (simp add: c g push_bit_eq_mult mult.commute)
  then show ?case using Suc.hyps(1) [OF m Suc.prems] by simp
qed

lemma fft_1d_zero:
  assumes "zero_upto (2 ^ k) data"
  shows "snd (fft_1d rq st data (2 ^ k) inverse_flag) = data"
proof -
  have s: "fft_stages tw (2 ^ k) flag 2 data = data" for tw flag
    using fft_stages_zero [OF assms, of tw flag 1] by simp
  have "map (\<lambda>c. Complex (Re c * x) (Im c * x)) (take (2 ^ k) data) @ drop (2 ^ k) data = data" for x
  proof -
    have "map (\<lambda>c. Complex (Re c * x) (Im c * x)) (take (2 ^ k) data) = take (2 ^ k) data"
      using assms by (intro nth_equalityI) (simp_all add: zero_upto_def complex_eq_iff)
    then show ?thesis by simp
  qed
  then show ?thesis
    by (simp add: fft_1d_def Let_def bit_reverse_permute_zero [OF assms] s)
qed

lemma fft_row_zero:
  assumes "zero_upto (2 ^ k * H) data" and "i < H"
  shows "snd (fft_row rq (2 ^ k) inverse_flag i (st, data)) = data"
proof -
  have "i * 2 ^ k + 2 ^ k = Suc i * 2 ^ k" by simp
  also have "\<dots> \<le> H * 2 ^ k" using assms(2) by (intro mult_le_mono1) simp
  finally have le: "i * 2 ^ k + 2 ^ k \<le> 2 ^ k * H" by (simp add: mult.commute)
  have ld: "2 ^ k * H \<le> length data" and zd: "\<forall>m<2 ^ k * H. data ! m = 0"
    using assms(1) by (simp_all add: zero_upto_def)
  have "zero_upto (2 ^ k) (drop (i * 2 ^ k) data)"
    unfolding zero_upto_def
  proof (intro conjI allI impI)
    show "2 ^ k \<le> length (drop (i * 2 ^ k) data)" using le ld by simp
    fix m :: nat assume "m < 2 ^ k"
    then have "i * 2 ^ k + m < 2 ^ k * H" using le by simp
    then show "drop (i * 2 ^ k) data ! m = 0" using zd ld by simp
  qed
  then have "snd (fft_1d rq st (drop (i * 2 ^ k) data) (2 ^ k) inverse_flag) = drop (i * 2 ^ k) data"
    by (rule fft_1d_zero)
  then show ?thesis by (simp add: fft_row_def Let_def)
qed

lemma fft_rows_zero:
  assumes "zero_upto (2 ^ k * H) data"
  shows "snd (fold (fft_row rq (2 ^ k) inverse_flag) [0..<H] (st, data)) = data"
proof -
  have "snd (fold (fft_row rq (2 ^ k) inverse_flag) is (st, data)) = data"
    if "\<forall>i \<in> set is. i < H" for "is" st
    using that
  proof (induction "is" arbitrary: st)
    case Nil
    then show ?case by simp
  next
    case (Cons i "is")
    have i: "i < H" using Cons.prems by simp
    have "snd (fft_row rq (2 ^ k) inverse_flag i (st, data)) = data"
      using assms i by (rule fft_row_zero)
    then obtain st' where e: "fft_row rq (2 ^ k) inverse_flag i (st, data) = (st', data)"
      by (metis prod.collapse)
    have "snd (fold (fft_row rq (2 ^ k) inverse_flag) is (st', data)) = data"
      using Cons.prems by (intro Cons.IH) simp
    then show ?case by (simp add: e)
  qed
  then show ?thesis by simp
qed

lemma ensure_fft_temp_buffer_length:
  assumes "scratch_wf st" and "malloc_result mem need"
    and "fft_temp_buffer (ensure_fft_temp_buffer st mem need) = Some temp"
  shows "need \<le> length temp"
  using assms
  by (auto simp: ensure_fft_temp_buffer_def scratch_wf_def malloc_result_def Let_def
      split: if_splits option.splits)

lemma fft_2d_zero:
  assumes "scratch_wf st" and "malloc_result mem (2 ^ k * 2 ^ k)"
  shows "snd (fft_2d rq st mem (replicate (2 ^ k * 2 ^ k) 0) (2 ^ k) (2 ^ k) inverse_flag)
         = replicate (2 ^ k * 2 ^ k) 0"
proof (cases "fft_temp_buffer (ensure_fft_temp_buffer st mem (2 ^ k * 2 ^ k))")
  case None
  then show ?thesis by (simp add: fft_2d_def Let_def)
next
  case (Some temp)
  let ?N = "(2::nat) ^ k"
  let ?z = "replicate (?N * ?N) (0::complex)"
  let ?st1 = "ensure_fft_temp_buffer st mem (?N * ?N)"
  have len: "?N * ?N \<le> length temp"
    using assms Some by (rule ensure_fft_temp_buffer_length)
  have z: "zero_upto (?N * ?N) ?z" by (simp add: zero_upto_def)
  have idx: "k' mod ?N * ?N + k' div ?N < ?N * ?N" if "k' < ?N * ?N" for k'
    using that by (intro cell_index) (simp_all add: less_mult_imp_div_less)
  let ?s2 = "fold (fft_row rq ?N inverse_flag) [0..<?N] (?st1, ?z)"
  have s2: "snd ?s2 = ?z" using z by (rule fft_rows_zero)
  let ?temp1 = "transpose_complex ?z temp ?N ?N"
  have t1: "zero_upto (?N * ?N) ?temp1"
    unfolding zero_upto_def
  proof (intro conjI allI impI)
    show "?N * ?N \<le> length ?temp1" using len by (simp add: transpose_complex_length)
    fix i assume i: "i < ?N * ?N"
    then have "?temp1 ! i = ?z ! (i mod ?N * ?N + i div ?N)"
      using len by (rule transpose_complex_nth)
    then show "?temp1 ! i = 0" using idx [OF i] by simp
  qed
  let ?s3 = "fold (fft_row rq ?N inverse_flag) [0..<?N] (fst ?s2, ?temp1)"
  have s3: "snd ?s3 = ?temp1" using t1 by (rule fft_rows_zero)
  have "transpose_complex ?temp1 ?z ?N ?N = ?z"
  proof (rule nth_equalityI)
    show "length (transpose_complex ?temp1 ?z ?N ?N) = length ?z"
      by (simp add: transpose_complex_length)
    fix i assume "i < length (transpose_complex ?temp1 ?z ?N ?N)"
    then have i: "i < ?N * ?N" by (simp add: transpose_complex_length)
    then have "transpose_complex ?temp1 ?z ?N ?N ! i = ?temp1 ! (i mod ?N * ?N + i div ?N)"
      by (intro transpose_complex_nth) simp_all
    also have "\<dots> = 0" using t1 idx [OF i] by (simp add: zero_upto_def)
    finally show "transpose_complex ?temp1 ?z ?N ?N ! i = ?z ! i" using i by simp
  qed
  then show ?thesis
    using Some by (simp add: fft_2d_def Let_def s2 s3)
qed

lemma replicate_update_zero: "(replicate m (0::real))[a := 0] = replicate m 0"
proof (cases "a < m")
  case True
  then show ?thesis by (metis list_update_id nth_replicate)
next
  case False
  then show ?thesis by (simp add: list_update_beyond)
qed

lemma fft_shift_swap_zero:
  assumes "i < size_n div 2" and "j < size_n div 2"
  shows "fft_shift_swap size_n (size_n div 2) i j (replicate (size_n * size_n) 0)
         = replicate (size_n * size_n) 0"
proof -
  have h: "i < size_n" "j < size_n" "i + size_n div 2 < size_n" "j + size_n div 2 < size_n"
    using assms by linarith+
  have "i * size_n + j < size_n * size_n" "(i + size_n div 2) * size_n + (j + size_n div 2) < size_n * size_n"
    "i * size_n + (j + size_n div 2) < size_n * size_n" "(i + size_n div 2) * size_n + j < size_n * size_n"
    using h by (simp_all only: cell_index)
  then show ?thesis
    by (simp add: fft_shift_swap_def Let_def replicate_update_zero)
qed

lemma fft_shift_zero:
  "fft_shift (replicate (size_n * size_n) 0) size_n = replicate (size_n * size_n) 0"
proof -
  have f: "fold (fft_shift_swap size_n (size_n div 2) i) [0..<size_n div 2] (replicate (size_n * size_n) 0)
        = replicate (size_n * size_n) 0" if "i < size_n div 2" for i
    using that by (intro fold_fixed fft_shift_swap_zero) simp_all
  show ?thesis
    unfolding fft_shift_def Let_def by (rule fold_fixed) (simp add: f)
qed

lemma grid_pupil_null_mask:
  "grid_pupil rq st grid_opd amplitude None total_size wavelength = replicate total_size 0"
  by (rule nth_equalityI) (simp_all add: grid_pupil_def grid_pupil_cell_def Let_def)

lemma ensure_trig_tables_scratch: "scratch_wf (ensure_trig_tables st total_size) = scratch_wf st"
  by (auto simp: ensure_trig_tables_def init_fast_trig_tables_def scratch_wf_def Let_def
      split: option.splits)

section \<open>Array bounds of the transform for power-of-two sizes\<close>

lemma bit_reverse_step_index:
  "fst (bit_reverse_step n i (j, data)) = fst (bit_reverse_step n i (j, []))"
  by (simp add: bit_reverse_step_def Let_def)

lemma bit_reverse_in_bounds_pow2:
  assumes "2 ^ k \<le> avail"
  shows "bit_reverse_in_bounds avail (2 ^ k)"
proof (cases k)
  case 0
  then show ?thesis by (simp add: bit_reverse_in_bounds_def)
next
  case (Suc e)
  let ?f = "\<lambda>i s. let j = fst (bit_reverse_step (2 ^ Suc e) i (snd s, []))
                   in (fst s \<and> (if i < j then j < avail else True), j)"
  have inv: "fst (fold ?f is (True, j))" if "j < 2 ^ Suc e" for "is" j
    using that
  proof (induction "is" arbitrary: j)
    case Nil
    then show ?case by simp
  next
    case (Cons i "is")
    let ?j = "fst (bit_reverse_step (2 ^ Suc e) i (j, []))"
    have "?j = fst (bit_reverse_carry j (2 ^ e)) XOR snd (bit_reverse_carry j (2 ^ e))"
      by (simp add: bit_reverse_step_def Let_def drop_bit_eq_div)
    then have j: "?j < 2 ^ Suc e" using bit_reverse_carry_bound [OF Cons.prems] by simp
    then have "?j < avail" using assms Suc by simp
    then have "?f i (True, j) = (True, ?j)" by (simp add: Let_def)
    then show ?case using Cons.IH [OF j] by simp
  qed
  show ?thesis
    unfolding bit_reverse_in_bounds_def Suc by (rule inv) simp
qed

lemma groups_in_bounds_dvd:
  assumes "n \<le> avail" and "len dvd n" and "len dvd i"
  shows "groups_in_bounds avail n len i"
  using assms
proof (induction avail n len i rule: groups_in_bounds.induct)
  case (1 avail n len i)
  show ?case
  proof (cases "i < n \<and> 0 < len")
    case True
    obtain a where a: "i = len * a" using "1.prems"(3) by (rule dvdE)
    obtain b where b: "n = len * b" using "1.prems"(2) by (rule dvdE)
    note ab = a b
    then have "a < b" using True by simp
    then have "len * (a + 1) \<le> len * b" by (intro mult_le_mono2) simp
    then have le: "i + len \<le> n" using ab by simp
    have "i + j + len div 2 < avail" if "j \<in> set [0..<len div 2]" for j
    proof -
      have "j < len div 2" using that by simp
      then have "j + len div 2 < len" by linarith
      then show ?thesis using le "1.prems"(1) by linarith
    qed
    then have l: "list_all (\<lambda>j. i + j + len div 2 < avail) [0..<len div 2]"
      by (simp add: list_all_iff)
    have "len dvd i + len" using "1.prems"(3) by simp
    then have "groups_in_bounds avail n len (i + len)"
      using "1.IH" [OF True] "1.prems"(1,2) by simp
    then show ?thesis
      using True l by (subst groups_in_bounds.simps) simp
  next
    case False
    show ?thesis by (subst groups_in_bounds.simps) (simp only: False if_False)
  qed
qed

lemma stages_in_bounds_pow2:
  assumes "2 ^ k \<le> avail"
  shows "stages_in_bounds avail (2 ^ k) (2 ^ e)"
proof (induction "Suc k - e" arbitrary: e)
  case 0
  then have "\<not> (2 ^ e \<le> (2::nat) ^ k \<and> 0 < (2::nat) ^ e)" by simp
  then show ?case by (subst stages_in_bounds.simps) (simp only: if_False)
next
  case (Suc m)
  then have ek: "e \<le> k" by simp
  then have c: "2 ^ e \<le> (2::nat) ^ k \<and> 0 < (2::nat) ^ e" by simp
  have dvd: "(2::nat) ^ e dvd 2 ^ k" using ek by (rule le_imp_power_dvd)
  have g: "groups_in_bounds avail (2 ^ k) (2 ^ e) 0"
    using assms dvd by (rule groups_in_bounds_dvd) simp
  have m: "m = Suc k - Suc e" using Suc.hyps(2) by simp
  have "stages_in_bounds avail (2 ^ k) (2 ^ e) = stages_in_bounds avail (2 ^ k) (2 ^ Suc e)"
    by (subst stages_in_bounds.simps) (simp add: c g push_bit_eq_mult mult.commute)
  then show ?case using Suc.hyps(1) [OF m] by simp
qed

lemma fft_1d_in_bounds_pow2:
  assumes "2 ^ k \<le> avail"
  shows "fft_1d_in_bounds avail (2 ^ k) inverse_flag"
  using assms bit_reverse_in_bounds_pow2 [OF assms] stages_in_bounds_pow2 [OF assms, of 1]
  by (simp add: fft_1d_in_bounds_def)

lemma fft_rows_in_bounds_pow2:
  assumes "2 ^ k * H \<le> avail"
  shows "fft_rows_in_bounds avail (2 ^ k) H inverse_flag"
proof -
  have "fft_1d_in_bounds (avail - i * 2 ^ k) (2 ^ k) inverse_flag" if "i < H" for i
  proof -
    have "i * 2 ^ k + 2 ^ k = Suc i * 2 ^ k" by simp
    also have "\<dots> \<le> H * 2 ^ k" using that by (intro mult_le_mono1) simp
    finally have "i * 2 ^ k + 2 ^ k \<le> avail" using assms by (simp add: mult.commute)
    then have "2 ^ k \<le> avail - i * 2 ^ k" by linarith
    then show ?thesis by (rule fft_1d_in_bounds_pow2)
  qed
  then show ?thesis by (simp add: fft_rows_in_bounds_def list_all_iff)
qed

lemma fft_2d_in_bounds_pow2:
  assumes "scratch_wf st" and "malloc_result mem (2 ^ k * 2 ^ k)"
  shows "fft_2d_in_bounds st mem (2 ^ k * 2 ^ k) (2 ^ k) (2 ^ k) inverse_flag"
proof (cases "fft_temp_buffer (ensure_fft_temp_buffer st mem (2 ^ k * 2 ^ k))")
  case None
  then show ?thesis by (simp add: fft_2d_in_bounds_def Let_def)
next
  case (Some temp)
  have len: "2 ^ k * 2 ^ k \<le> length temp"
    using assms Some by (rule ensure_fft_temp_buffer_length)
  show ?thesis
    using Some len fft_rows_in_bounds_pow2 [of k "2 ^ k" "2 ^ k * 2 ^ k" inverse_flag]
      fft_rows_in_bounds_pow2 [OF len, of inverse_flag]
    by (simp add: fft_2d_in_bounds_def Let_def)
qed

section \<open>The grid form with a null mask\<close>

text \<open>
  C9, as the code has it.  With a \<^verbatim>\<open>NULL\<close> mask pointer \<^verbatim>\<open>calculate_psf_grid_wasm\<close> returns,
  when its two per-call allocations succeed, an intensity array whose \<open>N\<^sup>2\<close> entries are all
  exactly 0, for every grid side that is a power of two, \<open>N = 2 ^ k\<close> with \<open>k \<le> 14\<close> (so that
  \<open>4 * N\<^sup>2\<close>, the size of the trigonometric tables, is in the range of \<^verbatim>\<open>int\<close>), every
  wavelength, all OPD and amplitude arrays and every state of the tables that the program
  can be in: every pupil cell is zero, every access of
  the transform is inside its array, the transform of the zero field is zero whatever the
  twiddle table holds, and intensity and quadrant swap keep zero.  This holds whether or
  not the scratch allocation inside \<^verbatim>\<open>fft_2d\<close> succeeds.
\<close>

theorem psf_grid_null_mask_zero:
  assumes "scratch_wf st" and "malloc_result mem (2 ^ k * 2 ^ k)" and "k \<le> 14"
    and "trig_tables_wf st"
  shows "snd (calculate_psf_grid_wasm rq st True mem grid_opd amplitude None (2 ^ k) wavelength)
         = Intensity (replicate (2 ^ k * 2 ^ k) 0)"
proof -
  have w: "scratch_wf (ensure_trig_tables st (2 ^ k * 2 ^ k))"
    using assms(1) by (simp add: ensure_trig_tables_scratch)
  have "map (\<lambda>c. Re c * Re c + Im c * Im c) (replicate (2 ^ k * 2 ^ k) (0::complex))
        = replicate (2 ^ k * 2 ^ k) (0::real)" by simp
  then show ?thesis
    by (simp add: calculate_psf_grid_wasm_def Let_def grid_pupil_null_mask
        fft_2d_in_bounds_pow2 [OF w assms(2)] fft_2d_zero [OF w assms(2)] fft_shift_zero)
qed

theorem psf_grid_null_mask_zero_witness:
  "scratch_wf initial_state \<and> malloc_result (Some [7, 7, 7, 7]) (2 ^ 1 * 2 ^ 1) \<and> (1::nat) \<le> 14
   \<and> trig_tables_wf initial_state
   \<and> snd (calculate_psf_grid_wasm exact_quotient initial_state True (Some [7, 7, 7, 7])
            (Some [1, 2, 3, 4]) None None (2 ^ 1) (1 / 2))
       = Intensity (replicate (2 ^ 1 * 2 ^ 1) 0)"
proof -
  have w: "scratch_wf initial_state" by (simp add: scratch_wf_def initial_state_def)
  have m: "malloc_result (Some [7, 7, 7, 7]) (2 ^ 1 * 2 ^ 1)" by (simp add: malloc_result_def)
  show ?thesis
    using w m trig_tables_wf_initial
      psf_grid_null_mask_zero [OF w m _ trig_tables_wf_initial, where rq = exact_quotient
        and grid_opd = "Some [1, 2, 3, 4]" and amplitude = None and wavelength = "1 / 2"]
    by simp
qed

text \<open>
  The claim as stated covers any \<open>N\<close>.  For \<open>N = 3\<close> the transform of the last row,
  \<^verbatim>\<open>fft_1d(data + 6, 3, 0)\<close>, runs the butterfly of the group \<open>i = 2\<close> of length 2 on
  \<^verbatim>\<open>data[6 + 2]\<close> and \<^verbatim>\<open>data[6 + 3]\<close>, and the latter is element 9 of the array of 9 elements:
  the call reads and writes outside \<^verbatim>\<open>complex_amp\<close> and has no defined result.
\<close>

lemma last_row_of_3_out_of_bounds: "\<not> fft_1d_in_bounds (9 - 2 * 3) 3 0"
  by (simp add: fft_1d_in_bounds_def stages_in_bounds.simps groups_in_bounds.simps upt_rec)

theorem psf_grid_null_mask_side_3_counterexample:
  "snd (calculate_psf_grid_wasm exact_quotient initial_state True (Some (replicate 9 0))
          None None None 3 1)
     = Out_of_bounds
   \<and> Out_of_bounds \<noteq> Intensity (replicate (3 * 3) 0)"
proof -
  have u: "[0..<3] = [0, 1, 2]" by (simp add: upt_rec)
  have "\<not> fft_rows_in_bounds 9 3 3 0"
    using last_row_of_3_out_of_bounds by (simp add: fft_rows_in_bounds_def u)
  then have "\<not> fft_2d_in_bounds (ensure_trig_tables initial_state (3 * 3)) (Some (replicate 9 0)) 9 3 3 0"
    by (simp add: fft_2d_in_bounds_def Let_def ensure_fft_temp_buffer_def ensure_trig_tables_def
        init_fast_trig_tables_def initial_state_def)
  then show ?thesis
    by (simp add: calculate_psf_grid_wasm_def Let_def)
qed

end
